theory Spec2Isabelle
  imports Main "HOL-Library.Word" "HOL-Library.Signed_Division"
begin

section \<open>Expression parser and evaluator of \<^verbatim>\<open>Tutorials/Week4/src/expr.c\<close>\<close>

text \<open>
  The file \<^verbatim>\<open>expr.c\<close> holds a recursive-descent parser for arithmetic expressions
  (\<^verbatim>\<open>PrimaryExpression\<close>, \<^verbatim>\<open>MultiplicativeExpression\<close>, \<^verbatim>\<open>AdditiveExpression\<close>,
  \<^verbatim>\<open>Expression\<close>) that builds a binary tree and names a temporary for every operator, and an
  interpreter (\<^verbatim>\<open>EvalExpression\<close>) that walks the tree in postorder, computes the value and
  prints one three-address instruction per operator node.

  The embedding is shallow. Global variables (\<^verbatim>\<open>tmpNo\<close>, \<^verbatim>\<open>curToken\<close>), the standard output
  and the messages handed to \<^verbatim>\<open>Error\<close> are fields of one explicit state, \<open>world\<close>, that every
  function takes and returns. A call either returns (\<open>Ret\<close>) or ends the process (\<open>Halt\<close>).
\<close>

subsection \<open>Data: tokens, values, tree nodes\<close>

text \<open>
  Modelled from the spec: the token kinds of \<^verbatim>\<open>lex.h\<close>, which is not part of the sources
  at hand. \<^verbatim>\<open>expr.c\<close> names \<open>TK_NUM\<close>, \<open>TK_ADD\<close>, \<open>TK_SUB\<close>, \<open>TK_MUL\<close>, \<open>TK_DIV\<close>, \<open>TK_LPAREN\<close>,
  \<open>TK_RPAREN\<close> and (in a comment) \<open>TK_EOF\<close>; \<open>TK_NA\<close> stands for every other kind the
  scanner may produce.
\<close>

datatype TokenKind =
  TK_NUM | TK_ADD | TK_SUB | TK_MUL | TK_DIV | TK_LPAREN | TK_RPAREN | TK_EOF | TK_NA

text \<open>
  C's \<^verbatim>\<open>long\<close> (the type of \<^verbatim>\<open>numVal\<close> and of the interpreter's result) is a 64-bit
  two's-complement integer, and \<^verbatim>\<open>int\<close> (the type of \<^verbatim>\<open>tmpNo\<close>) a 32-bit one. Addition,
  subtraction and multiplication wrap around, as the machine instructions do.
\<close>

type_synonym long = "64 word"
type_synonym cint = "32 word"

text \<open>
  Modelled from the spec: the struct \<^verbatim>\<open>Value\<close>, declared in a header that is not at
  hand. \<^verbatim>\<open>expr.c\<close> reads and writes its fields \<^verbatim>\<open>name\<close> (a character array, a C string)
  and \<^verbatim>\<open>numVal\<close>.
\<close>

record Value =
  name :: string
  numVal :: long

text \<open>
  Modelled from the spec: the struct of \<^verbatim>\<open>curToken\<close>, of which \<^verbatim>\<open>expr.c\<close> reads the
  fields \<^verbatim>\<open>kind\<close> and \<^verbatim>\<open>value\<close>.
\<close>

record Token =
  kind :: TokenKind
  val :: Value

text \<open>
  Modelled from the spec: the struct \<^verbatim>\<open>astExprNode\<close> of \<^verbatim>\<open>expr.h\<close>, which is not at hand
  either. \<^verbatim>\<open>expr.c\<close> uses its fields \<^verbatim>\<open>op\<close>, \<^verbatim>\<open>value\<close> and the two pointers
  \<^verbatim>\<open>kids[0]\<close> and \<^verbatim>\<open>kids[1]\<close>. A pointer \<^verbatim>\<open>AstExprNodePtr\<close> is \<open>None\<close> when it is
  \<^verbatim>\<open>NULL\<close>.
\<close>

datatype astExprNode =
  Node (op: TokenKind) (nval: Value) (kid0: "astExprNode option") (kid1: "astExprNode option")

type_synonym AstExprNodePtr = "astExprNode option"

subsection \<open>State and outcomes\<close>

text \<open>
  What the error-reporting functions are told: the message of a call of \<^verbatim>\<open>Error\<close>, or the
  token kind that \<^verbatim>\<open>Expect\<close> did not find.
\<close>

datatype report = Message string | Expected TokenKind

text \<open>
  \<open>toks\<close> is the token source: the current token \<^verbatim>\<open>curToken\<close> first, then the tokens the
  scanner will deliver. \<open>tmpNo\<close> is the static counter of \<^verbatim>\<open>expr.c\<close>. \<open>out\<close> is the standard
  output, one element per call of \<^verbatim>\<open>EmitIR\<close> (which is \<^verbatim>\<open>printf\<close>). \<open>err\<close> collects the
  reports.
\<close>

record world =
  toks :: "Token list"
  tmpNo :: cint
  out :: "string list"
  err :: "report list"

text \<open>
  How a process ends before a function returns: \<open>Exit\<close> when the error-reporting function
  terminates it, \<open>Abort\<close> when an \<^verbatim>\<open>assert\<close> fails, \<open>Fault\<close> when a division has no defined
  result.
\<close>

datatype halt = Exit | Abort | Fault

datatype 'a run = Ret 'a world | Halt halt world

fun final :: "'a run \<Rightarrow> world" where
  "final (Ret _ w) = w"
| "final (Halt _ w) = w"

text \<open>
  What \<^verbatim>\<open>expr.c\<close> takes from headers that are not at hand: the macro \<^verbatim>\<open>MAX_ID_LEN\<close> (the
  size passed to \<^verbatim>\<open>snprintf\<close>), and whether the error-reporting function of \<^verbatim>\<open>error.h\<close>
  hands control back to its caller. The spec describes it as fatal; \<^verbatim>\<open>expr.c\<close> has code
  after each call. Both behaviours are covered: they are a parameter.
\<close>

record env =
  MAX_ID_LEN :: nat
  Error_returns :: bool

subsection \<open>Collaborators\<close>

text \<open>
  Modelled from the spec: \<^verbatim>\<open>reportFatalError(message)\<close> records the message; it then
  terminates the process, or returns when the parameter says so.
\<close>

definition fatal :: "env \<Rightarrow> report \<Rightarrow> world \<Rightarrow> unit run" where
  "fatal E r w =
     (let w' = w\<lparr>err := err w @ [r]\<rparr>
      in if Error_returns E then Ret () w' else Halt Exit w')"

definition Error :: "env \<Rightarrow> string \<Rightarrow> world \<Rightarrow> unit run" where
  "Error E msg w = fatal E (Message msg) w"

text \<open>
  Modelled from the spec: the lookahead token. At the end of the input the scanner keeps
  delivering a token of kind \<open>TK_EOF\<close>.
\<close>

definition curToken :: "world \<Rightarrow> Token" where
  "curToken w =
     (case toks w of
        [] \<Rightarrow> \<lparr>kind = TK_EOF, val = \<lparr>name = [], numVal = 0\<rparr>\<rparr>
      | t # _ \<Rightarrow> t)"

text \<open>Modelled from the spec: \<^verbatim>\<open>advance()\<close> discards the current token and loads the next.\<close>

definition NEXT_TOKEN :: "world \<Rightarrow> world" where
  "NEXT_TOKEN w = w\<lparr>toks := tl (toks w)\<rparr>"

text \<open>
  Modelled from the spec: \<^verbatim>\<open>expect(tokenKind)\<close> asserts that the current token matches and
  advances past it, or raises a fatal parse error.
\<close>

definition Expect :: "env \<Rightarrow> TokenKind \<Rightarrow> world \<Rightarrow> unit run" where
  "Expect E tk w =
     (if kind (curToken w) = tk then Ret () (NEXT_TOKEN w)
      else fatal E (Expected tk) w)"

subsection \<open>Temporaries and nodes\<close>

text \<open>\<^verbatim>\<open>static int NewTemp(void) { return tmpNo++; }\<close>\<close>

definition NewTemp :: "world \<Rightarrow> cint \<times> world" where
  "NewTemp w = (tmpNo w, w\<lparr>tmpNo := tmpNo w + 1\<rparr>)"

text \<open>
  \<^verbatim>\<open>CreateAstExprNode\<close> allocates a node, zeroes it and stores the four arguments. The
  allocation is taken to succeed.
\<close>

definition CreateAstExprNode ::
  "TokenKind \<Rightarrow> Value \<Rightarrow> AstExprNodePtr \<Rightarrow> AstExprNodePtr \<Rightarrow> astExprNode" where
  "CreateAstExprNode tk v left right = Node tk v left right"

text \<open>The assignments \<^verbatim>\<open>expr->kids[0] = left\<close> and \<^verbatim>\<open>expr->kids[1] = ...\<close>.\<close>

definition assign_kids0 :: "astExprNode \<Rightarrow> AstExprNodePtr \<Rightarrow> astExprNode" where
  "assign_kids0 expr p = Node (op expr) (nval expr) p (kid1 expr)"

definition assign_kids1 :: "astExprNode \<Rightarrow> AstExprNodePtr \<Rightarrow> astExprNode" where
  "assign_kids1 expr p = Node (op expr) (nval expr) (kid0 expr) p"

text \<open>
  \<^verbatim>\<open>snprintf(value.name, MAX_ID_LEN, "t%d", NewTemp())\<close> after \<^verbatim>\<open>memset(&value, 0, ...)\<close>:
  the decimal digits of a signed \<^verbatim>\<open>int\<close> after the letter t, cut to at most
  \<^verbatim>\<open>MAX_ID_LEN - 1\<close> characters; \<^verbatim>\<open>numVal\<close> stays zero.
\<close>

definition digit :: "nat \<Rightarrow> char" where
  "digit n = ''0123456789'' ! n"

function decimal :: "nat \<Rightarrow> string" where
  "decimal n = (if n < 10 then [digit n] else decimal (n div 10) @ [digit (n mod 10)])"
  by pat_completeness auto
termination
  by (relation "measure id") auto

definition printf_d :: "int \<Rightarrow> string" where
  "printf_d i = (if i < 0 then CHR ''-'' # decimal (nat (- i)) else decimal (nat i))"

definition temp_name :: "env \<Rightarrow> cint \<Rightarrow> string" where
  "temp_name E n = take (MAX_ID_LEN E - 1) (''t'' @ printf_d (sint n))"

definition temp_value :: "env \<Rightarrow> cint \<Rightarrow> Value" where
  "temp_value E n = \<lparr>name = temp_name E n, numVal = 0\<rparr>"

subsection \<open>The parser\<close>

text \<open>
  One function per function of \<^verbatim>\<open>expr.c\<close>; the two \<^verbatim>\<open>while\<close> loops are
  \<open>MultiplicativeLoop\<close> and \<open>AdditiveLoop\<close>, with the local variable \<^verbatim>\<open>left\<close> as argument.
  A loop body takes a new name, creates the node with null children from the current
  token's kind, skips the operator, and assigns the children: \<^verbatim>\<open>kids[0] = left\<close>, then
  \<^verbatim>\<open>kids[1]\<close> from the recursive call; the node is the new \<^verbatim>\<open>left\<close>.
\<close>

function (domintros)
    PrimaryExpression :: "env \<Rightarrow> world \<Rightarrow> AstExprNodePtr run"
and MultiplicativeExpression :: "env \<Rightarrow> world \<Rightarrow> AstExprNodePtr run"
and MultiplicativeLoop :: "env \<Rightarrow> AstExprNodePtr \<Rightarrow> world \<Rightarrow> AstExprNodePtr run"
and AdditiveExpression :: "env \<Rightarrow> world \<Rightarrow> AstExprNodePtr run"
and AdditiveLoop :: "env \<Rightarrow> AstExprNodePtr \<Rightarrow> world \<Rightarrow> AstExprNodePtr run"
and Expression :: "env \<Rightarrow> world \<Rightarrow> AstExprNodePtr run"
where
  "PrimaryExpression E w =
     (if kind (curToken w) = TK_NUM then
        Ret (Some (CreateAstExprNode (kind (curToken w)) (val (curToken w)) None None))
            (NEXT_TOKEN w)
      else if kind (curToken w) = TK_LPAREN then
        (case Expression E (NEXT_TOKEN w) of
           Halt h w1 \<Rightarrow> Halt h w1
         | Ret expr w1 \<Rightarrow>
             (case Expect E TK_RPAREN w1 of
                Halt h w2 \<Rightarrow> Halt h w2
              | Ret _ w2 \<Rightarrow> Ret expr w2))
      else
        (case Error E ''number or '(' expected'' w of
           Halt h w1 \<Rightarrow> Halt h w1
         | Ret _ w1 \<Rightarrow> Ret None w1))"
| "MultiplicativeExpression E w =
     (case PrimaryExpression E w of
        Halt h w1 \<Rightarrow> Halt h w1
      | Ret left w1 \<Rightarrow> MultiplicativeLoop E left w1)"
| "MultiplicativeLoop E left w =
     (if kind (curToken w) = TK_MUL \<or> kind (curToken w) = TK_DIV then
        (case NewTemp w of
           (n, w1) \<Rightarrow>
             (case PrimaryExpression E (NEXT_TOKEN w1) of
                Halt h w2 \<Rightarrow> Halt h w2
              | Ret right w2 \<Rightarrow>
                  MultiplicativeLoop E
                    (Some (assign_kids1
                       (assign_kids0
                          (CreateAstExprNode (kind (curToken w1)) (temp_value E n) None None)
                          left)
                       right))
                    w2))
      else Ret left w)"
| "AdditiveExpression E w =
     (case MultiplicativeExpression E w of
        Halt h w1 \<Rightarrow> Halt h w1
      | Ret left w1 \<Rightarrow> AdditiveLoop E left w1)"
| "AdditiveLoop E left w =
     (if kind (curToken w) = TK_SUB \<or> kind (curToken w) = TK_ADD then
        (case NewTemp w of
           (n, w1) \<Rightarrow>
             (case MultiplicativeExpression E (NEXT_TOKEN w1) of
                Halt h w2 \<Rightarrow> Halt h w2
              | Ret right w2 \<Rightarrow>
                  AdditiveLoop E
                    (Some (assign_kids1
                       (assign_kids0
                          (CreateAstExprNode (kind (curToken w1)) (temp_value E n) None None)
                          left)
                       right))
                    w2))
      else Ret left w)"
| "Expression E w = AdditiveExpression E w"
  by pat_completeness auto

text \<open>
  Termination: every recursive call that is not on a shorter token list goes to a function
  lower in the grammar, and what a call leaves of the token list is never longer than what
  it was given.
\<close>

termination
proof -
  let ?dom = "PrimaryExpression_MultiplicativeExpression_MultiplicativeLoop_AdditiveExpression_AdditiveLoop_Expression_dom"
  note psimps = PrimaryExpression.psimps MultiplicativeExpression.psimps
    MultiplicativeLoop.psimps AdditiveExpression.psimps AdditiveLoop.psimps Expression.psimps
  have shorter: "length (toks (NEXT_TOKEN w1)) < length (toks w)"
    if "(n, w1) = NewTemp w" and "kind (curToken w) \<noteq> TK_EOF" for n w1 w
    using that by (auto simp: curToken_def NEXT_TOKEN_def NewTemp_def split: list.splits)
  have len:
    "?dom (Inl (Inl (E, w))) \<Longrightarrow>
       length (toks (final (PrimaryExpression E w))) \<le> length (toks w)"
    "?dom (Inl (Inr (Inl (E, w)))) \<Longrightarrow>
       length (toks (final (MultiplicativeExpression E w))) \<le> length (toks w)"
    "?dom (Inl (Inr (Inr (E, left, w)))) \<Longrightarrow>
       length (toks (final (MultiplicativeLoop E left w))) \<le> length (toks w)"
    "?dom (Inr (Inl (E, w))) \<Longrightarrow>
       length (toks (final (AdditiveExpression E w))) \<le> length (toks w)"
    "?dom (Inr (Inr (Inl (E, left, w)))) \<Longrightarrow>
       length (toks (final (AdditiveLoop E left w))) \<le> length (toks w)"
    "?dom (Inr (Inr (Inr (E, w)))) \<Longrightarrow>
       length (toks (final (Expression E w))) \<le> length (toks w)"
    for E w left
  proof (induct rule:
      PrimaryExpression_MultiplicativeExpression_MultiplicativeLoop_AdditiveExpression_AdditiveLoop_Expression.pinduct)
    case (1 E w)
    show ?case
    proof (cases "kind (curToken w) = TK_NUM")
      case True
      with 1(1) show ?thesis by (simp add: psimps NEXT_TOKEN_def)
    next
      case nonum: False
      show ?thesis
      proof (cases "kind (curToken w) = TK_LPAREN")
        case True
        from 1(2) [OF nonum True]
        have ih: "length (toks (final (Expression E (NEXT_TOKEN w)))) \<le> length (toks w)"
          by (simp add: NEXT_TOKEN_def)
        show ?thesis
        proof (cases "Expression E (NEXT_TOKEN w)")
          case (Halt h w1)
          with 1(1) nonum True ih show ?thesis by (simp add: psimps)
        next
          case (Ret expr w1)
          have "length (toks (final (Expect E TK_RPAREN w1))) \<le> length (toks w1)"
            by (simp add: Expect_def fatal_def Let_def NEXT_TOKEN_def)
          with 1(1) nonum True ih Ret show ?thesis
            by (cases "Expect E TK_RPAREN w1") (simp_all add: psimps)
        qed
      next
        case False
        have "toks (final (Error E ''number or '(' expected'' w)) = toks w"
          by (simp add: Error_def fatal_def Let_def)
        with 1(1) nonum False show ?thesis
          by (cases "Error E ''number or '(' expected'' w") (simp_all add: psimps)
      qed
    qed
  next
    case (2 E w)
    show ?case
    proof (cases "PrimaryExpression E w")
      case (Halt h w1)
      with 2(1,2) show ?thesis by (simp add: psimps)
    next
      case (Ret l w1)
      with 2(1,2) 2(3) [OF Ret] show ?thesis by (simp add: psimps)
    qed
  next
    case (3 E left w)
    show ?case
    proof (cases "kind (curToken w) = TK_MUL \<or> kind (curToken w) = TK_DIV")
      case False
      with 3(1) show ?thesis by (simp add: psimps)
    next
      case True
      obtain n w1 where nt: "NewTemp w = (n, w1)" by (cases "NewTemp w")
      have t1: "toks w1 = toks w" using nt by (auto simp: NewTemp_def)
      from 3(2) [OF True nt [symmetric]]
      have ih1: "length (toks (final (PrimaryExpression E (NEXT_TOKEN w1)))) \<le> length (toks w)"
        by (simp add: NEXT_TOKEN_def t1)
      show ?thesis
      proof (cases "PrimaryExpression E (NEXT_TOKEN w1)")
        case (Halt h w2)
        with 3(1) True nt ih1 show ?thesis by (simp add: psimps)
      next
        case (Ret r w2)
        from 3(3) [OF True nt [symmetric] Ret] 3(1) True nt ih1 Ret
        show ?thesis by (simp add: psimps)
      qed
    qed
  next
    case (4 E w)
    show ?case
    proof (cases "MultiplicativeExpression E w")
      case (Halt h w1)
      with 4(1,2) show ?thesis by (simp add: psimps)
    next
      case (Ret l w1)
      with 4(1,2) 4(3) [OF Ret] show ?thesis by (simp add: psimps)
    qed
  next
    case (5 E left w)
    show ?case
    proof (cases "kind (curToken w) = TK_SUB \<or> kind (curToken w) = TK_ADD")
      case False
      with 5(1) show ?thesis by (simp add: psimps)
    next
      case True
      obtain n w1 where nt: "NewTemp w = (n, w1)" by (cases "NewTemp w")
      have t1: "toks w1 = toks w" using nt by (auto simp: NewTemp_def)
      from 5(2) [OF True nt [symmetric]]
      have ih1: "length (toks (final (MultiplicativeExpression E (NEXT_TOKEN w1)))) \<le> length (toks w)"
        by (simp add: NEXT_TOKEN_def t1)
      show ?thesis
      proof (cases "MultiplicativeExpression E (NEXT_TOKEN w1)")
        case (Halt h w2)
        with 5(1) True nt ih1 show ?thesis by (simp add: psimps)
      next
        case (Ret r w2)
        from 5(3) [OF True nt [symmetric] Ret] 5(1) True nt ih1 Ret
        show ?thesis by (simp add: psimps)
      qed
    qed
  next
    case (6 E w)
    then show ?case by (simp add: psimps)
  qed

  show ?thesis
    apply (relation "inv_image (less_than <*lex*> less_than)
      (\<lambda>x. case x of
         Inl (Inl (E, w)) \<Rightarrow> (length (toks w), 0::nat)
       | Inl (Inr (Inl (E, w))) \<Rightarrow> (length (toks w), 2)
       | Inl (Inr (Inr (E, l, w))) \<Rightarrow> (length (toks w), 0)
       | Inr (Inl (E, w)) \<Rightarrow> (length (toks w), 3)
       | Inr (Inr (Inl (E, l, w))) \<Rightarrow> (length (toks w), 0)
       | Inr (Inr (Inr (E, w))) \<Rightarrow> (length (toks w), 4))")
    subgoal by (intro wf_inv_image wf_lex_prod wf_less_than)
    subgoal for E w using shorter [of "tmpNo w" "w\<lparr>tmpNo := tmpNo w + 1\<rparr>" w]
      by (simp add: NewTemp_def NEXT_TOKEN_def)
    subgoal by simp
    subgoal for E w left w1 using len(1) [of E w] by auto
    subgoal for E left w n w1 using shorter [of n w1 w] by auto
    subgoal for E left w n w1 right w2
      using len(1) [of E "NEXT_TOKEN w1"] shorter [of n w1 w] by auto
    subgoal by simp
    subgoal for E w left w1 using len(2) [of E w] by auto
    subgoal for E left w n w1 using shorter [of n w1 w] by auto
    subgoal for E left w n w1 right w2
      using len(2) [of E "NEXT_TOKEN w1"] shorter [of n w1 w] by auto
    subgoal by simp
    done
qed

declare PrimaryExpression.simps [simp del] MultiplicativeExpression.simps [simp del]
  MultiplicativeLoop.simps [simp del] AdditiveExpression.simps [simp del]
  AdditiveLoop.simps [simp del] Expression.simps [simp del] decimal.simps [simp del]

subsection \<open>The interpreter\<close>

definition isArithmeticOperator :: "TokenKind \<Rightarrow> bool" where
  "isArithmeticOperator tk \<longleftrightarrow> tk = TK_ADD \<or> tk = TK_SUB \<or> tk = TK_MUL \<or> tk = TK_DIV"

text \<open>\<^verbatim>\<open>EmitIR\<close> is \<^verbatim>\<open>printf\<close>: the text is appended to the standard output.\<close>

definition EmitIR :: "string \<Rightarrow> world \<Rightarrow> world" where
  "EmitIR s w = w\<lparr>out := out w @ [s]\<rparr>"

text \<open>
  The four format strings \<^verbatim>\<open>"%s = %s + %s\n"\<close>, \<^verbatim>\<open>"%s = %s - %s\n"\<close>, \<^verbatim>\<open>"%s = %s * %s\n"\<close>
  and \<^verbatim>\<open>"%s = %s / %s\n"\<close>, applied to the destination and the two operand names.
\<close>

definition instr :: "string \<Rightarrow> string \<Rightarrow> string \<Rightarrow> string \<Rightarrow> string" where
  "instr d l c r = d @ '' = '' @ l @ '' '' @ c @ '' '' @ r @ [CHR 0x0A]"

definition LONG_MIN :: long where
  "LONG_MIN = - 9223372036854775808"

text \<open>
  \<^verbatim>\<open>leftOperand / rightOperand\<close> on \<^verbatim>\<open>long\<close>: the quotient truncated towards zero. C
  defines no result for a zero divisor, nor for \<^verbatim>\<open>LONG_MIN / -1\<close>, whose quotient is not a
  \<^verbatim>\<open>long\<close>; the division instruction faults on both. \<open>None\<close> stands for that.
\<close>

definition long_div :: "long \<Rightarrow> long \<Rightarrow> long option" where
  "long_div l r =
     (if r = 0 \<or> (l = LONG_MIN \<and> r = - 1) then None
      else Some (word_of_int (sint l sdiv sint r)))"

text \<open>
  \<^verbatim>\<open>EvalExpression\<close>, statement by statement: the three asserts, the literal case, the
  two recursive calls (left before right), the \<^verbatim>\<open>switch\<close> with its four cases and its
  empty default, and the last branch, which calls \<^verbatim>\<open>Error\<close> and then returns 0.
\<close>

function EvalExpression :: "env \<Rightarrow> AstExprNodePtr \<Rightarrow> world \<Rightarrow> long run" where
  "EvalExpression E None w = Halt Abort w"
| "EvalExpression E (Some root) w =
     (if op root = TK_NUM then Ret (numVal (nval root)) w
      else if isArithmeticOperator (op root) then
        (if kid0 root = None then Halt Abort w
         else if kid1 root = None then Halt Abort w
         else
           (case EvalExpression E (kid0 root) w of
              Halt h w1 \<Rightarrow> Halt h w1
            | Ret leftOperand w1 \<Rightarrow>
                (case EvalExpression E (kid1 root) w1 of
                   Halt h w2 \<Rightarrow> Halt h w2
                 | Ret rightOperand w2 \<Rightarrow>
                     (case op root of
                        TK_ADD \<Rightarrow>
                          Ret (leftOperand + rightOperand)
                            (EmitIR (instr (name (nval root)) (name (nval (the (kid0 root))))
                               ''+'' (name (nval (the (kid1 root))))) w2)
                      | TK_SUB \<Rightarrow>
                          Ret (leftOperand - rightOperand)
                            (EmitIR (instr (name (nval root)) (name (nval (the (kid0 root))))
                               ''-'' (name (nval (the (kid1 root))))) w2)
                      | TK_MUL \<Rightarrow>
                          Ret (leftOperand * rightOperand)
                            (EmitIR (instr (name (nval root)) (name (nval (the (kid0 root))))
                               ''*'' (name (nval (the (kid1 root))))) w2)
                      | TK_DIV \<Rightarrow>
                          (case long_div leftOperand rightOperand of
                             None \<Rightarrow> Halt Fault w2
                           | Some result \<Rightarrow>
                               Ret result
                                 (EmitIR (instr (name (nval root)) (name (nval (the (kid0 root))))
                                    ''/'' (name (nval (the (kid1 root))))) w2))
                      | _ \<Rightarrow> Ret 0 w2))))
      else
        (case Error E ''Unknown operator/operand'' w of
           Halt h w1 \<Rightarrow> Halt h w1
         | Ret _ w1 \<Rightarrow> Ret 0 w1))"
  by pat_completeness auto
termination
  apply (relation "measure (\<lambda>(E, p, w). size_option size p)")
  apply simp
  subgoal for E root w by (cases root) auto
  subgoal for E root w by (cases root) auto
  done

declare EvalExpression.simps [simp del]

subsection \<open>The same interpreter on a store\<close>

text \<open>
  In C the tree lives in memory and \<^verbatim>\<open>EvalExpression\<close> receives a pointer into it. To say
  what the function does to that memory, here it is once more with the nodes in a store:
  an address holds a struct whose children are addresses. The function takes the store
  and returns it with its result. It may not return at all on a store with a cycle, so its
  result is an option. Reading an address that holds no node is a fault.
\<close>

datatype cell =
  Cell (c_op: TokenKind) (c_value: Value) (c_kid0: "nat option") (c_kid1: "nat option")

type_synonym store = "nat \<Rightarrow> cell option"

partial_function (option) EvalExpression_store ::
  "env \<Rightarrow> nat option \<Rightarrow> store \<times> world \<Rightarrow> (long run \<times> store) option" where
  "EvalExpression_store E root sw =
     (case sw of (s, w) \<Rightarrow>
      (case root of
         None \<Rightarrow> Some (Halt Abort w, s)
       | Some a \<Rightarrow>
         (case s a of
            None \<Rightarrow> Some (Halt Fault w, s)
          | Some n \<Rightarrow>
              if c_op n = TK_NUM then Some (Ret (numVal (c_value n)) w, s)
              else if isArithmeticOperator (c_op n) then
                (if c_kid0 n = None then Some (Halt Abort w, s)
                 else if c_kid1 n = None then Some (Halt Abort w, s)
                 else
                   Option.bind (EvalExpression_store E (c_kid0 n) (s, w)) (\<lambda>(r1, s1).
                     case r1 of
                       Halt h w1 \<Rightarrow> Some (Halt h w1, s1)
                     | Ret leftOperand w1 \<Rightarrow>
                         Option.bind (EvalExpression_store E (c_kid1 n) (s1, w1)) (\<lambda>(r2, s2).
                           case r2 of
                             Halt h w2 \<Rightarrow> Some (Halt h w2, s2)
                           | Ret rightOperand w2 \<Rightarrow>
                               (case (s2 (the (c_kid0 n)), s2 (the (c_kid1 n))) of
                                  (Some k0, Some k1) \<Rightarrow>
                                    (case c_op n of
                                       TK_ADD \<Rightarrow>
                                         Some (Ret (leftOperand + rightOperand)
                                           (EmitIR (instr (name (c_value n)) (name (c_value k0))
                                              ''+'' (name (c_value k1))) w2), s2)
                                     | TK_SUB \<Rightarrow>
                                         Some (Ret (leftOperand - rightOperand)
                                           (EmitIR (instr (name (c_value n)) (name (c_value k0))
                                              ''-'' (name (c_value k1))) w2), s2)
                                     | TK_MUL \<Rightarrow>
                                         Some (Ret (leftOperand * rightOperand)
                                           (EmitIR (instr (name (c_value n)) (name (c_value k0))
                                              ''*'' (name (c_value k1))) w2), s2)
                                     | TK_DIV \<Rightarrow>
                                         (case long_div leftOperand rightOperand of
                                            None \<Rightarrow> Some (Halt Fault w2, s2)
                                          | Some result \<Rightarrow>
                                              Some (Ret result
                                                (EmitIR (instr (name (c_value n))
                                                   (name (c_value k0)) ''/''
                                                   (name (c_value k1))) w2), s2))
                                     | _ \<Rightarrow> Some (Ret 0 w2, s2))
                                | _ \<Rightarrow> Some (Halt Fault w2, s2)))))
              else
                (case Error E ''Unknown operator/operand'' w of
                   Halt h w1 \<Rightarrow> Some (Halt h w1, s)
                 | Ret _ w1 \<Rightarrow> Some (Ret 0 w1, s)))))"

text \<open>When a store holds a tree: the node at an address, and its children in turn.\<close>

fun holds :: "store \<Rightarrow> nat \<Rightarrow> astExprNode \<Rightarrow> bool" where
  "holds s a (Node tk v k0 k1) =
     (case s a of
        None \<Rightarrow> False
      | Some n \<Rightarrow>
          c_op n = tk \<and> c_value n = v \<and>
          (case k0 of
             None \<Rightarrow> c_kid0 n = None
           | Some l \<Rightarrow> (case c_kid0 n of None \<Rightarrow> False | Some a0 \<Rightarrow> holds s a0 l)) \<and>
          (case k1 of
             None \<Rightarrow> c_kid1 n = None
           | Some r \<Rightarrow> (case c_kid1 n of None \<Rightarrow> False | Some a1 \<Rightarrow> holds s a1 r)))"

subsection \<open>Reading a tree\<close>

text \<open>
  The nodes of a tree in symmetric order (left subtree, node, right subtree), each as its
  \<^verbatim>\<open>op\<close> and \<^verbatim>\<open>value\<close>; all nodes of a tree; and the shape the interpreter asks for: a
  \<open>TK_NUM\<close> node without children, or an operator node with two.
\<close>

fun inorder :: "astExprNode \<Rightarrow> (TokenKind \<times> Value) list" where
  "inorder (Node tk v k0 k1) =
     (case k0 of None \<Rightarrow> [] | Some l \<Rightarrow> inorder l) @
     (tk, v) # (case k1 of None \<Rightarrow> [] | Some r \<Rightarrow> inorder r)"

fun subnodes :: "astExprNode \<Rightarrow> astExprNode list" where
  "subnodes (Node tk v k0 k1) =
     Node tk v k0 k1 #
     (case k0 of None \<Rightarrow> [] | Some l \<Rightarrow> subnodes l) @
     (case k1 of None \<Rightarrow> [] | Some r \<Rightarrow> subnodes r)"

fun wellformed :: "astExprNode \<Rightarrow> bool" where
  "wellformed (Node tk v k0 k1) =
     (if tk = TK_NUM then k0 = None \<and> k1 = None
      else isArithmeticOperator tk \<and>
        (case k0 of None \<Rightarrow> False | Some l \<Rightarrow> wellformed l) \<and>
        (case k1 of None \<Rightarrow> False | Some r \<Rightarrow> wellformed r))"

definition operator_nodes :: "astExprNode \<Rightarrow> (TokenKind \<times> Value) list" where
  "operator_nodes t = filter (\<lambda>(tk, v). isArithmeticOperator tk) (inorder t)"

text \<open>
  The number a tree stands for: the arithmetic of \<^verbatim>\<open>long\<close> on the literals, without the
  state, the left operand before the right one. \<open>None\<close> says that a division in the tree
  has no quotient.
\<close>

fun arith :: "astExprNode \<Rightarrow> long option" where
  "arith (Node tk v k0 k1) =
     (if tk = TK_NUM then Some (numVal v)
      else
        (case k0 of
           None \<Rightarrow> None
         | Some l \<Rightarrow>
             (case k1 of
                None \<Rightarrow> None
              | Some r \<Rightarrow>
                  (case arith l of
                     None \<Rightarrow> None
                   | Some a \<Rightarrow>
                       (case arith r of
                          None \<Rightarrow> None
                        | Some b \<Rightarrow>
                            if tk = TK_DIV then long_div a b
                            else if tk = TK_ADD then Some (a + b)
                            else if tk = TK_SUB then Some (a - b)
                            else Some (a * b))))))"

subsection \<open>Reading a token list\<close>

text \<open>
  The number of operator tokens in a list; the tokens a run has consumed between two
  states; and what the parser is to make of a list of tokens, written without recursion
  on the grammar: parentheses vanish, a literal keeps its value, and the operators are
  named by the counter in the order in which they stand.
\<close>

definition operators :: "Token list \<Rightarrow> nat" where
  "operators ts = length (filter (\<lambda>t. isArithmeticOperator (kind t)) ts)"

definition consumed :: "world \<Rightarrow> world \<Rightarrow> Token list" where
  "consumed w w' = take (length (toks w) - length (toks w')) (toks w)"

fun label :: "env \<Rightarrow> cint \<Rightarrow> Token list \<Rightarrow> (TokenKind \<times> Value) list" where
  "label E c [] = []"
| "label E c (t # ts) =
     (if kind t = TK_NUM then (TK_NUM, val t) # label E c ts
      else if isArithmeticOperator (kind t) then (kind t, temp_value E c) # label E (c + 1) ts
      else label E c ts)"

definition parses :: "env \<Rightarrow> cint \<Rightarrow> Token list \<Rightarrow> astExprNode \<Rightarrow> bool" where
  "parses E c ts t \<longleftrightarrow> wellformed t \<and> inorder t = label E c ts"

text \<open>The numbers \<open>c\<close>, \<open>c + 1\<close>, ..., \<open>c + (n - 1)\<close> of \<open>n\<close> calls of \<open>NewTemp\<close>.\<close>

definition temps :: "cint \<Rightarrow> nat \<Rightarrow> cint list" where
  "temps c n = map (\<lambda>i. c + of_nat i) [0..<n]"

text \<open>
  What a run of the parser does to the state: it consumes a prefix of the tokens, adds the
  number of operators in that prefix to the counter, prints nothing, and only appends to
  the reports.
\<close>

definition advances :: "world \<Rightarrow> world \<Rightarrow> bool" where
  "advances w w' \<longleftrightarrow>
     toks w = consumed w w' @ toks w' \<and>
     tmpNo w' = tmpNo w + of_nat (operators (consumed w w')) \<and>
     out w' = out w \<and> take (length (err w)) (err w') = err w"

text \<open>
  What a run of the interpreter does to the state when it prints \<open>k\<close> instructions: it
  appends \<open>k\<close> elements to the output and changes nothing else.
\<close>

definition emits :: "world \<Rightarrow> world \<Rightarrow> nat \<Rightarrow> bool" where
  "emits w w' k \<longleftrightarrow>
     w' = w\<lparr>out := out w'\<rparr> \<and> take (length (out w)) (out w') = out w \<and>
     length (out w') = length (out w) + k"

text \<open>
  The same state with other text on the standard output and other reports: \<open>reframe\<close>
  puts \<open>ou\<close> for the output of \<open>w'\<close>, and \<open>e\<close> for the reports that \<open>w\<close> had, keeping
  those that were added since.
\<close>

fun map_world :: "(world \<Rightarrow> world) \<Rightarrow> 'a run \<Rightarrow> 'a run" where
  "map_world f (Ret x w) = Ret x (f w)"
| "map_world f (Halt h w) = Halt h (f w)"

definition reframe :: "string list \<Rightarrow> report list \<Rightarrow> world \<Rightarrow> world \<Rightarrow> world" where
  "reframe ou e w w' = w'\<lparr>out := ou, err := e @ drop (length (err w)) (err w')\<rparr>"

subsection \<open>A whole run\<close>

text \<open>
  A process starts with the counter at zero (a static \<^verbatim>\<open>int\<close>), nothing printed and
  nothing reported. \<open>compile\<close> is \<^verbatim>\<open>EvalExpression(Expression())\<close>.
\<close>

definition world0 :: "Token list \<Rightarrow> world" where
  "world0 ts = \<lparr>toks = ts, tmpNo = 0, out = [], err = []\<rparr>"

definition compile :: "env \<Rightarrow> world \<Rightarrow> long run" where
  "compile E w =
     (case Expression E w of
        Halt h w1 \<Rightarrow> Halt h w1
      | Ret root w1 \<Rightarrow> EvalExpression E root w1)"

subsection \<open>Inputs for the examples\<close>

text \<open>
  Tokens, as a scanner may deliver them: a literal with its text as name and its value; any
  other token with its text as name. Two settings of the parameters: \<open>env0\<close> with an
  \<^verbatim>\<open>Error\<close> that terminates the process, \<open>env1\<close> with one that returns. Trees, and a
  store that holds the tree of \<^verbatim>\<open>3 + 4\<close> at address 10.
\<close>

definition tok :: "TokenKind \<Rightarrow> Value \<Rightarrow> Token" where
  "tok k v = \<lparr>kind = k, val = v\<rparr>"

definition num :: "string \<Rightarrow> long \<Rightarrow> Token" where
  "num s n = tok TK_NUM \<lparr>name = s, numVal = n\<rparr>"

definition plus :: Token where
  "plus = tok TK_ADD \<lparr>name = ''+'', numVal = 0\<rparr>"

definition minus :: Token where
  "minus = tok TK_SUB \<lparr>name = ''-'', numVal = 0\<rparr>"

definition slash :: Token where
  "slash = tok TK_DIV \<lparr>name = ''/'', numVal = 0\<rparr>"

definition lparen :: Token where
  "lparen = tok TK_LPAREN \<lparr>name = ''('', numVal = 0\<rparr>"

definition rparen :: Token where
  "rparen = tok TK_RPAREN \<lparr>name = '')'', numVal = 0\<rparr>"

definition env0 :: env where
  "env0 = \<lparr>MAX_ID_LEN = 128, Error_returns = False\<rparr>"

definition env1 :: env where
  "env1 = \<lparr>MAX_ID_LEN = 128, Error_returns = True\<rparr>"

definition leaf :: "string \<Rightarrow> long \<Rightarrow> astExprNode" where
  "leaf s n = Node TK_NUM \<lparr>name = s, numVal = n\<rparr> None None"

definition binop :: "TokenKind \<Rightarrow> string \<Rightarrow> astExprNode \<Rightarrow> astExprNode \<Rightarrow> astExprNode" where
  "binop k d l r = Node k \<lparr>name = d, numVal = 0\<rparr> (Some l) (Some r)"

definition store0 :: store where
  "store0 = (\<lambda>a.
     if a = 10 then Some (Cell TK_ADD \<lparr>name = ''t0'', numVal = 0\<rparr> (Some 11) (Some 12))
     else if a = 11 then Some (Cell TK_NUM \<lparr>name = ''3'', numVal = 3\<rparr> None None)
     else if a = 12 then Some (Cell TK_NUM \<lparr>name = ''4'', numVal = 4\<rparr> None None)
     else None)"

section \<open>Lemmas\<close>

subsection \<open>Single steps\<close>

text \<open>The node a loop body has built when both assignments are done.\<close>

lemma loop_node:
  "assign_kids1 (assign_kids0 (CreateAstExprNode k v None None) left) right =
   CreateAstExprNode k v left right"
  by (simp add: assign_kids0_def assign_kids1_def CreateAstExprNode_def)

lemmas MultiplicativeLoop_simps = MultiplicativeLoop.simps [unfolded loop_node]

lemmas AdditiveLoop_simps = AdditiveLoop.simps [unfolded loop_node]

lemmas parse_induct =
  PrimaryExpression_MultiplicativeExpression_MultiplicativeLoop_AdditiveExpression_AdditiveLoop_Expression.induct
    [unfolded loop_node]

lemma isArithmeticOperator_simps [simp]:
  "isArithmeticOperator TK_ADD" "isArithmeticOperator TK_SUB"
  "isArithmeticOperator TK_MUL" "isArithmeticOperator TK_DIV"
  "\<not> isArithmeticOperator TK_NUM" "\<not> isArithmeticOperator TK_LPAREN"
  "\<not> isArithmeticOperator TK_RPAREN" "\<not> isArithmeticOperator TK_EOF"
  "\<not> isArithmeticOperator TK_NA"
  by (simp_all add: isArithmeticOperator_def)

lemma operators_append: "operators (xs @ ys) = operators xs + operators ys"
  by (simp add: operators_def)

lemma curToken_consume:
  assumes "kind (curToken w) = k" and "k \<noteq> TK_EOF"
  shows "\<exists>t. toks w = t # toks (NEXT_TOKEN w) \<and> kind t = k \<and> curToken w = t"
  using assms by (cases "toks w") (auto simp: curToken_def NEXT_TOKEN_def)

lemma Expect_success:
  assumes "Expect E tk w = Ret u w'" and "err w' = err w"
  shows "kind (curToken w) = tk \<and> w' = NEXT_TOKEN w"
  using assms by (auto simp: Expect_def fatal_def Let_def split: if_splits)

lemma Error_reports:
  assumes "Error E m w = Ret u w'"
  shows "err w' \<noteq> err w"
  using assms by (auto simp: Error_def fatal_def Let_def split: if_splits)

subsection \<open>What a run of the parser does to the state\<close>

lemma advances_iff:
  "advances w w' \<longleftrightarrow>
     (\<exists>cs. toks w = cs @ toks w' \<and> tmpNo w' = tmpNo w + of_nat (operators cs)) \<and>
     out w' = out w \<and> (\<exists>xs. err w' = err w @ xs)"
proof
  assume a: "advances w w'"
  then have "err w' = err w @ drop (length (err w)) (err w')"
    unfolding advances_def by (metis append_take_drop_id)
  with a show "(\<exists>cs. toks w = cs @ toks w' \<and> tmpNo w' = tmpNo w + of_nat (operators cs)) \<and>
     out w' = out w \<and> (\<exists>xs. err w' = err w @ xs)"
    unfolding advances_def by blast
next
  assume "(\<exists>cs. toks w = cs @ toks w' \<and> tmpNo w' = tmpNo w + of_nat (operators cs)) \<and>
     out w' = out w \<and> (\<exists>xs. err w' = err w @ xs)"
  then obtain cs xs where c: "toks w = cs @ toks w'"
    "tmpNo w' = tmpNo w + of_nat (operators cs)" "out w' = out w" "err w' = err w @ xs"
    by blast
  from c(1) have "consumed w w' = cs" by (simp add: consumed_def)
  with c show "advances w w'" by (simp add: advances_def)
qed

lemma advances_refl: "advances w w"
  by (simp add: advances_iff operators_def)

lemma advances_trans:
  assumes "advances w w1" and "advances w1 w2"
  shows "advances w w2"
proof -
  from assms obtain cs1 cs2 xs1 xs2 where
    a: "toks w = cs1 @ toks w1" "tmpNo w1 = tmpNo w + of_nat (operators cs1)"
       "toks w1 = cs2 @ toks w2" "tmpNo w2 = tmpNo w1 + of_nat (operators cs2)"
       "err w1 = err w @ xs1" "err w2 = err w1 @ xs2" "out w1 = out w" "out w2 = out w1"
    by (auto simp: advances_iff)
  have "toks w = (cs1 @ cs2) @ toks w2" using a by simp
  moreover have "tmpNo w2 = tmpNo w + of_nat (operators (cs1 @ cs2))"
    using a by (simp add: operators_append)
  moreover have "err w2 = err w @ (xs1 @ xs2)" using a by simp
  ultimately show ?thesis using a unfolding advances_iff by metis
qed

lemma advancesI:
  "toks w = cs @ toks w' \<Longrightarrow> tmpNo w' = tmpNo w + of_nat (operators cs) \<Longrightarrow>
   out w' = out w \<Longrightarrow> err w' = err w @ xs \<Longrightarrow> advances w w'"
  unfolding advances_iff by blast

lemma advances_NEXT_TOKEN:
  assumes "\<not> isArithmeticOperator (kind (curToken w))"
  shows "advances w (NEXT_TOKEN w)"
proof (cases "toks w")
  case Nil
  then show ?thesis
    by (intro advancesI [of _ "[]" _ "[]"]) (simp_all add: NEXT_TOKEN_def operators_def)
next
  case (Cons t ts)
  with assms show ?thesis
    by (intro advancesI [of _ "[t]" _ "[]"])
      (simp_all add: NEXT_TOKEN_def curToken_def operators_def)
qed

lemma advances_operator:
  assumes "isArithmeticOperator (kind (curToken w))" and "NewTemp w = (n, w1)"
  shows "advances w (NEXT_TOKEN w1)"
proof (cases "toks w")
  case Nil
  with assms(1) show ?thesis by (simp add: curToken_def isArithmeticOperator_def)
next
  case (Cons t ts)
  with assms show ?thesis
    by (intro advancesI [of _ "[t]" _ "[]"])
      (auto simp: NEXT_TOKEN_def curToken_def operators_def NewTemp_def)
qed

lemma advances_fatal: "advances w (final (fatal E r w))"
  by (simp add: advances_iff fatal_def Let_def operators_def)

lemma advances_Error: "advances w (final (Error E m w))"
  by (simp add: Error_def advances_fatal)

lemma advances_Expect:
  "\<not> isArithmeticOperator tk \<Longrightarrow> advances w (final (Expect E tk w))"
  by (auto simp: Expect_def advances_fatal advances_NEXT_TOKEN)

lemma parse_advances:
  "advances w (final (PrimaryExpression E w))"
  "advances w (final (MultiplicativeExpression E w))"
  "advances w (final (MultiplicativeLoop E left w))"
  "advances w (final (AdditiveExpression E w))"
  "advances w (final (AdditiveLoop E left w))"
  "advances w (final (Expression E w))"
proof (induct E w and E w and E left w and E w and E left w and E w rule: parse_induct)
  case (1 E w)
  show ?case
  proof (cases "kind (curToken w) = TK_NUM")
    case True
    then have "advances w (NEXT_TOKEN w)"
      by (intro advances_NEXT_TOKEN) (simp add: isArithmeticOperator_def)
    with True show ?thesis by (simp add: PrimaryExpression.simps)
  next
    case nonum: False
    show ?thesis
    proof (cases "kind (curToken w) = TK_LPAREN")
      case True
      then have a0: "advances w (NEXT_TOKEN w)"
        by (intro advances_NEXT_TOKEN) (simp add: isArithmeticOperator_def)
      note ih = advances_trans [OF a0 1 [OF nonum True]]
      show ?thesis
      proof (cases "Expression E (NEXT_TOKEN w)")
        case (Halt h w1)
        with nonum True ih show ?thesis by (simp add: PrimaryExpression.simps)
      next
        case (Ret expr w1)
        have "advances w1 (final (Expect E TK_RPAREN w1))"
          by (intro advances_Expect) (simp add: isArithmeticOperator_def)
        with ih Ret have "advances w (final (Expect E TK_RPAREN w1))"
          by (auto intro: advances_trans)
        with nonum True Ret show ?thesis
          by (cases "Expect E TK_RPAREN w1") (simp_all add: PrimaryExpression.simps)
      qed
    next
      case False
      have "advances w (final (Error E ''number or '(' expected'' w))"
        by (rule advances_Error)
      with nonum False show ?thesis
        by (cases "Error E ''number or '(' expected'' w") (simp_all add: PrimaryExpression.simps)
    qed
  qed
next
  case (2 E w)
  show ?case
  proof (cases "PrimaryExpression E w")
    case (Halt h w1)
    with 2(1) show ?thesis by (simp add: MultiplicativeExpression.simps)
  next
    case (Ret l w1)
    with 2(1) 2(2) [OF Ret] show ?thesis
      by (auto simp: MultiplicativeExpression.simps intro: advances_trans)
  qed
next
  case (3 E left w)
  show ?case
  proof (cases "kind (curToken w) = TK_MUL \<or> kind (curToken w) = TK_DIV")
    case False
    then show ?thesis by (simp add: MultiplicativeLoop_simps advances_refl)
  next
    case True
    obtain n w1 where nt: "NewTemp w = (n, w1)" by (cases "NewTemp w")
    from True have "isArithmeticOperator (kind (curToken w))"
      by (auto simp: isArithmeticOperator_def)
    then have a0: "advances w (NEXT_TOKEN w1)" using nt by (rule advances_operator)
    note ih1 = advances_trans [OF a0 3(1) [OF True nt [symmetric]]]
    show ?thesis
    proof (cases "PrimaryExpression E (NEXT_TOKEN w1)")
      case (Halt h w2)
      with True nt ih1 show ?thesis by (simp add: MultiplicativeLoop_simps)
    next
      case (Ret r w2)
      from 3(2) [OF True nt [symmetric] Ret] True nt ih1 Ret
      show ?thesis by (auto simp: MultiplicativeLoop_simps intro: advances_trans)
    qed
  qed
next
  case (4 E w)
  show ?case
  proof (cases "MultiplicativeExpression E w")
    case (Halt h w1)
    with 4(1) show ?thesis by (simp add: AdditiveExpression.simps)
  next
    case (Ret l w1)
    with 4(1) 4(2) [OF Ret] show ?thesis
      by (auto simp: AdditiveExpression.simps intro: advances_trans)
  qed
next
  case (5 E left w)
  show ?case
  proof (cases "kind (curToken w) = TK_SUB \<or> kind (curToken w) = TK_ADD")
    case False
    then show ?thesis by (simp add: AdditiveLoop_simps advances_refl)
  next
    case True
    obtain n w1 where nt: "NewTemp w = (n, w1)" by (cases "NewTemp w")
    from True have "isArithmeticOperator (kind (curToken w))"
      by (auto simp: isArithmeticOperator_def)
    then have a0: "advances w (NEXT_TOKEN w1)" using nt by (rule advances_operator)
    note ih1 = advances_trans [OF a0 5(1) [OF True nt [symmetric]]]
    show ?thesis
    proof (cases "MultiplicativeExpression E (NEXT_TOKEN w1)")
      case (Halt h w2)
      with True nt ih1 show ?thesis by (simp add: AdditiveLoop_simps)
    next
      case (Ret r w2)
      from 5(2) [OF True nt [symmetric] Ret] True nt ih1 Ret
      show ?thesis by (auto simp: AdditiveLoop_simps intro: advances_trans)
    qed
  qed
next
  case (6 E w)
  then show ?case by (simp add: Expression.simps)
qed

lemma err_unchanged:
  assumes "advances w w1" and "advances w1 w2" and "err w2 = err w"
  shows "err w1 = err w" and "err w2 = err w1"
proof -
  from assms(1,2) obtain xs ys where e: "err w1 = err w @ xs" "err w2 = err w1 @ ys"
    unfolding advances_iff by blast
  then have "err w2 = err w @ (xs @ ys)" by simp
  with assms(3) have "xs @ ys = []" by simp
  with e show "err w1 = err w" and "err w2 = err w1" by simp_all
qed

lemma advances_tmpNo:
  assumes "advances w w'" and "toks w = cs @ toks w'"
  shows "tmpNo w' = tmpNo w + of_nat (operators cs)"
proof -
  from assms(1) obtain cs' where
    c: "toks w = cs' @ toks w'" "tmpNo w' = tmpNo w + of_nat (operators cs')"
    unfolding advances_iff by blast
  from c(1) assms(2) have "cs' = cs" by simp
  with c(2) show ?thesis by simp
qed

subsection \<open>The tree the parser builds\<close>

text \<open>
  After a parse that reports nothing, the result is a well-formed tree whose nodes in
  symmetric order are the consumed tokens as \<open>label\<close> reads them. The loops carry the
  tree built so far: the statement for them is about the tokens consumed since the
  enclosing call began.
\<close>

lemma label_append:
  "label E c (xs @ ys) = label E c xs @ label E (c + of_nat (operators xs)) ys"
  by (induction xs arbitrary: c) (simp_all add: operators_def ac_simps)

lemma parse_Primary_correct_NUM:
  assumes "kind (curToken w) = TK_NUM"
  shows "\<exists>cs. toks w = cs @ toks (NEXT_TOKEN w) \<and>
           parses E c cs (CreateAstExprNode (kind (curToken w)) (val (curToken w)) None None)"
proof -
  from curToken_consume [OF assms] obtain t where
    t: "toks w = t # toks (NEXT_TOKEN w)" "kind t = TK_NUM" "curToken w = t" by auto
  have "parses E c [t] (Node TK_NUM (val t) None None)"
    using t(2) by (simp add: parses_def)
  with t have "toks w = [t] @ toks (NEXT_TOKEN w) \<and>
      parses E c [t] (CreateAstExprNode (kind (curToken w)) (val (curToken w)) None None)"
    by (simp add: CreateAstExprNode_def)
  then show ?thesis by blast
qed

lemma loop_step:
  assumes op: "isArithmeticOperator (kind (curToken w))"
    and nt: "NewTemp w = (n, w1)"
    and left: "parses E c pre l" "tmpNo w = c + of_nat (operators pre)"
    and right: "toks (NEXT_TOKEN w1) = cs1 @ toks w2" "parses E (tmpNo (NEXT_TOKEN w1)) cs1 rt"
      "advances (NEXT_TOKEN w1) w2"
  shows "\<exists>t. toks w = t # cs1 @ toks w2 \<and>
           parses E c (pre @ t # cs1)
             (CreateAstExprNode (kind (curToken w1)) (temp_value E n) (Some l) (Some rt)) \<and>
           tmpNo w2 = c + of_nat (operators (pre @ t # cs1))"
proof -
  from nt have w1: "w1 = w\<lparr>tmpNo := tmpNo w + 1\<rparr>" and n: "n = tmpNo w"
    by (auto simp: NewTemp_def)
  from op have "kind (curToken w) \<noteq> TK_EOF" by auto
  from curToken_consume [OF refl this] obtain t where
    t: "toks w = t # toks (NEXT_TOKEN w)" "kind t = kind (curToken w)" "curToken w = t"
    by auto
  have same: "toks (NEXT_TOKEN w1) = toks (NEXT_TOKEN w)" "curToken w1 = curToken w"
    "tmpNo (NEXT_TOKEN w1) = tmpNo w + 1"
    by (simp_all add: w1 NEXT_TOKEN_def curToken_def)
  have ops: "operators (pre @ t # cs1) = operators pre + 1 + operators cs1"
    using op t(2) by (simp add: operators_def)
  have toks: "toks w = t # cs1 @ toks w2"
    using t(1) right(1) same(1) by simp
  have notnum: "kind t \<noteq> TK_NUM" using op t(2) by auto
  have lab: "label E c (pre @ t # cs1) =
      label E c pre @ (kind t, temp_value E (tmpNo w)) # label E (tmpNo w + 1) cs1"
    using op t(2) notnum by (simp add: label_append left(2))
  have "parses E c (pre @ t # cs1) (Node (kind t) (temp_value E (tmpNo w)) (Some l) (Some rt))"
    using left(1) right(2) op t(2) notnum lab by (simp add: parses_def same(3))
  then have p: "parses E c (pre @ t # cs1)
      (CreateAstExprNode (kind (curToken w1)) (temp_value E n) (Some l) (Some rt))"
    by (simp add: CreateAstExprNode_def same(2) t(3) n)
  have "tmpNo w2 = tmpNo (NEXT_TOKEN w1) + of_nat (operators cs1)"
    using right(3,1) by (rule advances_tmpNo)
  then have "tmpNo w2 = c + of_nat (operators (pre @ t # cs1))"
    by (simp add: same(3) left(2) ops)
  with toks p show ?thesis by blast
qed

lemma parse_correct:
  "PrimaryExpression E w = Ret p w' \<Longrightarrow> err w' = err w \<Longrightarrow>
     \<exists>t cs. p = Some t \<and> toks w = cs @ toks w' \<and> parses E (tmpNo w) cs t"
  "MultiplicativeExpression E w = Ret p w' \<Longrightarrow> err w' = err w \<Longrightarrow>
     \<exists>t cs. p = Some t \<and> toks w = cs @ toks w' \<and> parses E (tmpNo w) cs t"
  "MultiplicativeLoop E left w = Ret p w' \<Longrightarrow> err w' = err w \<Longrightarrow>
     left = Some l \<Longrightarrow> parses E c pre l \<Longrightarrow> tmpNo w = c + of_nat (operators pre) \<Longrightarrow>
     \<exists>t cs. p = Some t \<and> toks w = cs @ toks w' \<and> parses E c (pre @ cs) t"
  "AdditiveExpression E w = Ret p w' \<Longrightarrow> err w' = err w \<Longrightarrow>
     \<exists>t cs. p = Some t \<and> toks w = cs @ toks w' \<and> parses E (tmpNo w) cs t"
  "AdditiveLoop E left w = Ret p w' \<Longrightarrow> err w' = err w \<Longrightarrow>
     left = Some l \<Longrightarrow> parses E c pre l \<Longrightarrow> tmpNo w = c + of_nat (operators pre) \<Longrightarrow>
     \<exists>t cs. p = Some t \<and> toks w = cs @ toks w' \<and> parses E c (pre @ cs) t"
  "Expression E w = Ret p w' \<Longrightarrow> err w' = err w \<Longrightarrow>
     \<exists>t cs. p = Some t \<and> toks w = cs @ toks w' \<and> parses E (tmpNo w) cs t"
proof (induct E w and E w and E left w and E w and E left w and E w
    arbitrary: p w' and p w' and p w' l c pre and p w' and p w' l c pre and p w'
    rule: parse_induct)
  case (1 E w)
  show ?case
  proof (cases "kind (curToken w) = TK_NUM")
    case True
    from parse_Primary_correct_NUM [OF True, of E "tmpNo w"] obtain cs where
      "toks w = cs @ toks (NEXT_TOKEN w)"
      "parses E (tmpNo w) cs
         (CreateAstExprNode (kind (curToken w)) (val (curToken w)) None None)" by blast
    moreover from "1.prems"(1) True
    have "p = Some (CreateAstExprNode (kind (curToken w)) (val (curToken w)) None None)"
      "w' = NEXT_TOKEN w" by (simp_all add: PrimaryExpression.simps)
    ultimately show ?thesis by blast
  next
    case nonum: False
    show ?thesis
    proof (cases "kind (curToken w) = TK_LPAREN")
      case True
      from curToken_consume [OF True] obtain lp where
        lp: "toks w = lp # toks (NEXT_TOKEN w)" "kind lp = TK_LPAREN" by auto
      have a0: "advances w (NEXT_TOKEN w)"
        using True by (intro advances_NEXT_TOKEN) simp
      show ?thesis
      proof (cases "Expression E (NEXT_TOKEN w)")
        case (Halt h w1)
        with nonum True "1.prems"(1) show ?thesis by (simp add: PrimaryExpression.simps)
      next
        case (Ret expr w1)
        from parse_advances(6) [of "NEXT_TOKEN w" E] Ret
        have a1: "advances (NEXT_TOKEN w) w1" by simp
        show ?thesis
        proof (cases "Expect E TK_RPAREN w1")
          case (Halt h w2)
          with nonum True Ret "1.prems"(1) show ?thesis by (simp add: PrimaryExpression.simps)
        next
          case ex: (Ret u w2)
          with nonum True Ret "1.prems"(1) have res: "p = expr" "w2 = w'"
            by (simp_all add: PrimaryExpression.simps)
          have "advances w1 (final (Expect E TK_RPAREN w1))"
            by (intro advances_Expect) simp
          with ex res have a2: "advances w1 w'" by simp
          from err_unchanged [OF advances_trans [OF a0 a1] a2 "1.prems"(2)]
          have e1: "err w1 = err w" and e2: "err w' = err w1" .
          from err_unchanged(1) [OF a0 a1 e1] have e0: "err (NEXT_TOKEN w) = err w" .
          from Expect_success [OF ex [unfolded res] e2]
          have rp: "kind (curToken w1) = TK_RPAREN" "w' = NEXT_TOKEN w1" by simp_all
          from curToken_consume [OF rp(1)] rp(2) obtain r where
            r: "toks w1 = r # toks w'" "kind r = TK_RPAREN" by auto
          from "1.hyps" [OF nonum True Ret] e1 e0 obtain t cs where
            ih: "expr = Some t" "toks (NEXT_TOKEN w) = cs @ toks w1"
              "parses E (tmpNo (NEXT_TOKEN w)) cs t" by auto
          have "toks w = (lp # cs @ [r]) @ toks w'" using lp(1) ih(2) r(1) by simp
          moreover have "parses E (tmpNo w) (lp # cs @ [r]) t"
            using ih(3) lp(2) r(2) by (simp add: parses_def label_append NEXT_TOKEN_def)
          ultimately show ?thesis using res(1) ih(1) by blast
        qed
      qed
    next
      case False
      show ?thesis
      proof (cases "Error E ''number or '(' expected'' w")
        case (Halt h w1)
        with nonum False "1.prems"(1) show ?thesis by (simp add: PrimaryExpression.simps)
      next
        case (Ret u w1)
        with nonum False "1.prems"(1) have "w1 = w'" by (simp add: PrimaryExpression.simps)
        with Error_reports [OF Ret] "1.prems"(2) show ?thesis by simp
      qed
    qed
  qed
next
  case (2 E w)
  show ?case
  proof (cases "PrimaryExpression E w")
    case (Halt h w1)
    with "2.prems"(1) show ?thesis by (simp add: MultiplicativeExpression.simps)
  next
    case (Ret left w1)
    with "2.prems"(1) have loop: "MultiplicativeLoop E left w1 = Ret p w'"
      by (simp add: MultiplicativeExpression.simps)
    from parse_advances(1) [of w E] Ret have a1: "advances w w1" by simp
    from parse_advances(3) [of w1 E left] loop have a2: "advances w1 w'" by simp
    from err_unchanged [OF a1 a2 "2.prems"(2)]
    have e1: "err w1 = err w" and e2: "err w' = err w1" .
    from "2.hyps"(1) [OF Ret e1] obtain l cs0 where
      ih1: "left = Some l" "toks w = cs0 @ toks w1" "parses E (tmpNo w) cs0 l" by auto
    from advances_tmpNo [OF a1 ih1(2)]
    have "tmpNo w1 = tmpNo w + of_nat (operators cs0)" .
    from "2.hyps"(2) [OF Ret loop e2 ih1(1) ih1(3) this] obtain t cs where
      ih2: "p = Some t" "toks w1 = cs @ toks w'" "parses E (tmpNo w) (cs0 @ cs) t" by auto
    have "toks w = (cs0 @ cs) @ toks w'" using ih1(2) ih2(2) by simp
    with ih2(1,3) show ?thesis by blast
  qed
next
  case (3 E left w)
  show ?case
  proof (cases "kind (curToken w) = TK_MUL \<or> kind (curToken w) = TK_DIV")
    case False
    with "3.prems"(1) have "p = left" "w' = w" by (simp_all add: MultiplicativeLoop_simps)
    with "3.prems"(3,4) show ?thesis by auto
  next
    case True
    then have op: "isArithmeticOperator (kind (curToken w))" by auto
    obtain n w1 where nt: "NewTemp w = (n, w1)" by (cases "NewTemp w")
    have a0: "advances w (NEXT_TOKEN w1)" using op nt by (rule advances_operator)
    show ?thesis
    proof (cases "PrimaryExpression E (NEXT_TOKEN w1)")
      case (Halt h w2)
      with True nt "3.prems"(1) show ?thesis by (simp add: MultiplicativeLoop_simps)
    next
      case (Ret right w2)
      let ?N = "CreateAstExprNode (kind (curToken w1)) (temp_value E n) left right"
      from True nt Ret "3.prems"(1) have loop: "MultiplicativeLoop E (Some ?N) w2 = Ret p w'"
        by (simp add: MultiplicativeLoop_simps)
      from parse_advances(1) [of "NEXT_TOKEN w1" E] Ret
      have a1: "advances (NEXT_TOKEN w1) w2" by simp
      from parse_advances(3) [of w2 E "Some ?N"] loop have a2: "advances w2 w'" by simp
      from err_unchanged [OF advances_trans [OF a0 a1] a2 "3.prems"(2)]
      have e2: "err w2 = err w" and e3: "err w' = err w2" .
      from err_unchanged(1) [OF a0 a1 e2] have e1: "err (NEXT_TOKEN w1) = err w" .
      from "3.hyps"(1) [OF True nt [symmetric] Ret] e1 e2 obtain rt cs1 where
        ih1: "right = Some rt" "toks (NEXT_TOKEN w1) = cs1 @ toks w2"
          "parses E (tmpNo (NEXT_TOKEN w1)) cs1 rt" by auto
      from loop_step [OF op nt "3.prems"(4,5) ih1(2,3) a1] obtain t where
        st: "toks w = t # cs1 @ toks w2"
          "parses E c (pre @ t # cs1)
             (CreateAstExprNode (kind (curToken w1)) (temp_value E n) (Some l) (Some rt))"
          "tmpNo w2 = c + of_nat (operators (pre @ t # cs1))" by blast
      from "3.hyps"(2) [OF True nt [symmetric] Ret loop e3 refl, of c "pre @ t # cs1"]
        st(2,3) "3.prems"(3) ih1(1)
      obtain t' cs2 where
        ih2: "p = Some t'" "toks w2 = cs2 @ toks w'" "parses E c ((pre @ t # cs1) @ cs2) t'"
        by auto
      have "toks w = (t # cs1 @ cs2) @ toks w'" using st(1) ih2(2) by simp
      moreover have "parses E c (pre @ (t # cs1 @ cs2)) t'" using ih2(3) by simp
      ultimately show ?thesis using ih2(1) by blast
    qed
  qed
next
  case (4 E w)
  show ?case
  proof (cases "MultiplicativeExpression E w")
    case (Halt h w1)
    with "4.prems"(1) show ?thesis by (simp add: AdditiveExpression.simps)
  next
    case (Ret left w1)
    with "4.prems"(1) have loop: "AdditiveLoop E left w1 = Ret p w'"
      by (simp add: AdditiveExpression.simps)
    from parse_advances(2) [of w E] Ret have a1: "advances w w1" by simp
    from parse_advances(5) [of w1 E left] loop have a2: "advances w1 w'" by simp
    from err_unchanged [OF a1 a2 "4.prems"(2)]
    have e1: "err w1 = err w" and e2: "err w' = err w1" .
    from "4.hyps"(1) [OF Ret e1] obtain l cs0 where
      ih1: "left = Some l" "toks w = cs0 @ toks w1" "parses E (tmpNo w) cs0 l" by auto
    from advances_tmpNo [OF a1 ih1(2)]
    have "tmpNo w1 = tmpNo w + of_nat (operators cs0)" .
    from "4.hyps"(2) [OF Ret loop e2 ih1(1) ih1(3) this] obtain t cs where
      ih2: "p = Some t" "toks w1 = cs @ toks w'" "parses E (tmpNo w) (cs0 @ cs) t" by auto
    have "toks w = (cs0 @ cs) @ toks w'" using ih1(2) ih2(2) by simp
    with ih2(1,3) show ?thesis by blast
  qed
next
  case (5 E left w)
  show ?case
  proof (cases "kind (curToken w) = TK_SUB \<or> kind (curToken w) = TK_ADD")
    case False
    with "5.prems"(1) have "p = left" "w' = w" by (simp_all add: AdditiveLoop_simps)
    with "5.prems"(3,4) show ?thesis by auto
  next
    case True
    then have op: "isArithmeticOperator (kind (curToken w))" by auto
    obtain n w1 where nt: "NewTemp w = (n, w1)" by (cases "NewTemp w")
    have a0: "advances w (NEXT_TOKEN w1)" using op nt by (rule advances_operator)
    show ?thesis
    proof (cases "MultiplicativeExpression E (NEXT_TOKEN w1)")
      case (Halt h w2)
      with True nt "5.prems"(1) show ?thesis by (simp add: AdditiveLoop_simps)
    next
      case (Ret right w2)
      let ?N = "CreateAstExprNode (kind (curToken w1)) (temp_value E n) left right"
      from True nt Ret "5.prems"(1) have loop: "AdditiveLoop E (Some ?N) w2 = Ret p w'"
        by (simp add: AdditiveLoop_simps)
      from parse_advances(2) [of "NEXT_TOKEN w1" E] Ret
      have a1: "advances (NEXT_TOKEN w1) w2" by simp
      from parse_advances(5) [of w2 E "Some ?N"] loop have a2: "advances w2 w'" by simp
      from err_unchanged [OF advances_trans [OF a0 a1] a2 "5.prems"(2)]
      have e2: "err w2 = err w" and e3: "err w' = err w2" .
      from err_unchanged(1) [OF a0 a1 e2] have e1: "err (NEXT_TOKEN w1) = err w" .
      from "5.hyps"(1) [OF True nt [symmetric] Ret] e1 e2 obtain rt cs1 where
        ih1: "right = Some rt" "toks (NEXT_TOKEN w1) = cs1 @ toks w2"
          "parses E (tmpNo (NEXT_TOKEN w1)) cs1 rt" by auto
      from loop_step [OF op nt "5.prems"(4,5) ih1(2,3) a1] obtain t where
        st: "toks w = t # cs1 @ toks w2"
          "parses E c (pre @ t # cs1)
             (CreateAstExprNode (kind (curToken w1)) (temp_value E n) (Some l) (Some rt))"
          "tmpNo w2 = c + of_nat (operators (pre @ t # cs1))" by blast
      from "5.hyps"(2) [OF True nt [symmetric] Ret loop e3 refl, of c "pre @ t # cs1"]
        st(2,3) "5.prems"(3) ih1(1)
      obtain t' cs2 where
        ih2: "p = Some t'" "toks w2 = cs2 @ toks w'" "parses E c ((pre @ t # cs1) @ cs2) t'"
        by auto
      have "toks w = (t # cs1 @ cs2) @ toks w'" using st(1) ih2(2) by simp
      moreover have "parses E c (pre @ (t # cs1 @ cs2)) t'" using ih2(3) by simp
      ultimately show ?thesis using ih2(1) by blast
    qed
  qed
next
  case (6 E w)
  then show ?case by (simp add: Expression.simps)
qed

lemma consumed_eq: "toks w = cs @ toks w' \<Longrightarrow> consumed w w' = cs"
  by (simp add: consumed_def)

lemma Expression_parses:
  assumes "Expression E w = Ret p w'" and "err w' = err w"
  shows "\<exists>t. p = Some t \<and> toks w = consumed w w' @ toks w' \<and>
           parses E (tmpNo w) (consumed w w') t \<and>
           tmpNo w' = tmpNo w + of_nat (operators (consumed w w')) \<and> out w' = out w"
proof -
  from parse_correct(6) [OF assms] obtain t cs where
    t: "p = Some t" "toks w = cs @ toks w'" "parses E (tmpNo w) cs t" by blast
  from parse_advances(6) [of w E] assms(1) have a: "advances w w'" by simp
  from advances_tmpNo [OF a t(2)] have "tmpNo w' = tmpNo w + of_nat (operators cs)" .
  moreover from a have "out w' = out w" by (simp add: advances_iff)
  moreover from t(2) have "consumed w w' = cs" by (rule consumed_eq)
  ultimately show ?thesis using t by simp
qed

lemma temps_Suc: "temps c (Suc n) = c # temps (c + 1) n"
proof -
  have "[0..<Suc n] = 0 # map Suc [0..<n]"
    by (simp add: upt_conv_Cons map_Suc_upt del: upt_Suc)
  then show ?thesis by (simp add: temps_def comp_def ac_simps del: upt_Suc)
qed

lemma label_operators:
  "filter (\<lambda>(tk, v). isArithmeticOperator tk) (label E c cs) =
   map (\<lambda>(t, n). (kind t, temp_value E n))
     (zip (filter (\<lambda>t. isArithmeticOperator (kind t)) cs) (temps c (operators cs)))"
proof (induction cs arbitrary: c)
  case Nil
  show ?case by (simp add: operators_def temps_def)
next
  case (Cons t cs)
  have o: "operators (t # cs) = (if isArithmeticOperator (kind t) then Suc (operators cs) else operators cs)"
    by (simp add: operators_def)
  show ?case using Cons [of c] Cons [of "c + 1"] by (auto simp: o temps_Suc)
qed

lemma length_temps [simp]: "length (temps c n) = n"
  by (simp add: temps_def)

lemma parses_operator_nodes:
  assumes "parses E c cs t"
  shows "length (operator_nodes t) = operators cs"
    and "map snd (operator_nodes t) = map (temp_value E) (temps c (operators cs))"
    and "map fst (operator_nodes t) = map kind (filter (\<lambda>t. isArithmeticOperator (kind t)) cs)"
proof -
  let ?ops = "filter (\<lambda>t. isArithmeticOperator (kind t)) cs"
  have len: "length ?ops = length (temps c (operators cs))" by (simp add: operators_def)
  from assms have "operator_nodes t =
    map (\<lambda>(t, n). (kind t, temp_value E n)) (zip ?ops (temps c (operators cs)))"
    by (simp add: parses_def operator_nodes_def label_operators)
  then have o: "operator_nodes t =
    zip (map kind ?ops) (map (temp_value E) (temps c (operators cs)))"
    by (simp add: zip_map_map)
  from o len show "length (operator_nodes t) = operators cs" by simp
  from o len show "map snd (operator_nodes t) = map (temp_value E) (temps c (operators cs))"
    by simp
  from o len show "map fst (operator_nodes t) = map kind ?ops" by simp
qed

subsection \<open>Errors end the parse\<close>

lemma NEXT_TOKEN_fields [simp]:
  "err (NEXT_TOKEN w) = err w" "out (NEXT_TOKEN w) = out w" "tmpNo (NEXT_TOKEN w) = tmpNo w"
  by (simp_all add: NEXT_TOKEN_def)

lemma fatal_halts: "\<not> Error_returns E \<Longrightarrow> fatal E r w = Halt Exit (w\<lparr>err := err w @ [r]\<rparr>)"
  by (simp add: fatal_def)

text \<open>
  With an \<^verbatim>\<open>Error\<close> that terminates the process, a parsing function that returns has
  reported nothing; and a parsing function stops only by that exit.
\<close>

lemma parse_Ret_silent:
  "\<not> Error_returns E \<Longrightarrow> PrimaryExpression E w = Ret p w' \<Longrightarrow> err w' = err w"
  "\<not> Error_returns E \<Longrightarrow> MultiplicativeExpression E w = Ret p w' \<Longrightarrow> err w' = err w"
  "\<not> Error_returns E \<Longrightarrow> MultiplicativeLoop E left w = Ret p w' \<Longrightarrow> err w' = err w"
  "\<not> Error_returns E \<Longrightarrow> AdditiveExpression E w = Ret p w' \<Longrightarrow> err w' = err w"
  "\<not> Error_returns E \<Longrightarrow> AdditiveLoop E left w = Ret p w' \<Longrightarrow> err w' = err w"
  "\<not> Error_returns E \<Longrightarrow> Expression E w = Ret p w' \<Longrightarrow> err w' = err w"
proof (induct E w and E w and E left w and E w and E left w and E w
    arbitrary: p w' and p w' and p w' and p w' and p w' and p w'
    rule: parse_induct)
  case (1 E w)
  show ?case
  proof (cases "kind (curToken w) = TK_NUM")
    case True
    with "1.prems"(2) show ?thesis by (auto simp: PrimaryExpression.simps)
  next
    case nonum: False
    show ?thesis
    proof (cases "kind (curToken w) = TK_LPAREN")
      case True
      from "1.prems"(2) nonum True obtain expr w1 u where
        r: "Expression E (NEXT_TOKEN w) = Ret expr w1" "Expect E TK_RPAREN w1 = Ret u w'"
        by (auto simp: PrimaryExpression.simps split: run.splits)
      from "1.hyps" [OF nonum True "1.prems"(1) r(1)] have "err w1 = err w" by simp
      moreover from r(2) "1.prems"(1) have "err w' = err w1"
        by (auto simp: Expect_def fatal_halts split: if_splits)
      ultimately show ?thesis by simp
    next
      case False
      with "1.prems" nonum show ?thesis
        by (auto simp: PrimaryExpression.simps Error_def fatal_halts)
    qed
  qed
next
  case (2 E w)
  from "2.prems"(2) obtain left w1 where
    r: "PrimaryExpression E w = Ret left w1" "MultiplicativeLoop E left w1 = Ret p w'"
    by (auto simp: MultiplicativeExpression.simps split: run.splits)
  from "2.hyps"(1) [OF "2.prems"(1) r(1)] "2.hyps"(2) [OF r(1) "2.prems"(1) r(2)]
  show ?case by simp
next
  case (3 E left w)
  show ?case
  proof (cases "kind (curToken w) = TK_MUL \<or> kind (curToken w) = TK_DIV")
    case False
    with "3.prems"(2) show ?thesis by (simp add: MultiplicativeLoop_simps)
  next
    case True
    obtain n w1 where nt: "NewTemp w = (n, w1)" by (cases "NewTemp w")
    then have e0: "err (NEXT_TOKEN w1) = err w" by (auto simp: NewTemp_def)
    from "3.prems"(2) True nt obtain right w2 where
      r: "PrimaryExpression E (NEXT_TOKEN w1) = Ret right w2"
        "MultiplicativeLoop E
           (Some (CreateAstExprNode (kind (curToken w1)) (temp_value E n) left right)) w2 =
         Ret p w'"
      by (auto simp: MultiplicativeLoop_simps split: run.splits)
    from "3.hyps"(1) [OF True nt [symmetric] "3.prems"(1) r(1)]
      "3.hyps"(2) [OF True nt [symmetric] r(1) "3.prems"(1) r(2)] e0
    show ?thesis by simp
  qed
next
  case (4 E w)
  from "4.prems"(2) obtain left w1 where
    r: "MultiplicativeExpression E w = Ret left w1" "AdditiveLoop E left w1 = Ret p w'"
    by (auto simp: AdditiveExpression.simps split: run.splits)
  from "4.hyps"(1) [OF "4.prems"(1) r(1)] "4.hyps"(2) [OF r(1) "4.prems"(1) r(2)]
  show ?case by simp
next
  case (5 E left w)
  show ?case
  proof (cases "kind (curToken w) = TK_SUB \<or> kind (curToken w) = TK_ADD")
    case False
    with "5.prems"(2) show ?thesis by (simp add: AdditiveLoop_simps)
  next
    case True
    obtain n w1 where nt: "NewTemp w = (n, w1)" by (cases "NewTemp w")
    then have e0: "err (NEXT_TOKEN w1) = err w" by (auto simp: NewTemp_def)
    from "5.prems"(2) True nt obtain right w2 where
      r: "MultiplicativeExpression E (NEXT_TOKEN w1) = Ret right w2"
        "AdditiveLoop E
           (Some (CreateAstExprNode (kind (curToken w1)) (temp_value E n) left right)) w2 =
         Ret p w'"
      by (auto simp: AdditiveLoop_simps split: run.splits)
    from "5.hyps"(1) [OF True nt [symmetric] "5.prems"(1) r(1)]
      "5.hyps"(2) [OF True nt [symmetric] r(1) "5.prems"(1) r(2)] e0
    show ?thesis by simp
  qed
next
  case (6 E w)
  then show ?case by (simp add: Expression.simps)
qed

lemma parse_Halt_Exit:
  "PrimaryExpression E w = Halt h w' \<Longrightarrow> h = Exit \<and> \<not> Error_returns E"
  "MultiplicativeExpression E w = Halt h w' \<Longrightarrow> h = Exit \<and> \<not> Error_returns E"
  "MultiplicativeLoop E left w = Halt h w' \<Longrightarrow> h = Exit \<and> \<not> Error_returns E"
  "AdditiveExpression E w = Halt h w' \<Longrightarrow> h = Exit \<and> \<not> Error_returns E"
  "AdditiveLoop E left w = Halt h w' \<Longrightarrow> h = Exit \<and> \<not> Error_returns E"
  "Expression E w = Halt h w' \<Longrightarrow> h = Exit \<and> \<not> Error_returns E"
proof (induct E w and E w and E left w and E w and E left w and E w
    arbitrary: h w' and h w' and h w' and h w' and h w' and h w'
    rule: parse_induct)
  case (1 E w)
  show ?case
  proof (cases "kind (curToken w) = TK_NUM")
    case True
    with "1.prems" show ?thesis by (simp add: PrimaryExpression.simps)
  next
    case nonum: False
    show ?thesis
    proof (cases "kind (curToken w) = TK_LPAREN")
      case True
      show ?thesis
      proof (cases "Expression E (NEXT_TOKEN w)")
        case (Halt h1 w1)
        with "1.prems" nonum True have "h1 = h" by (simp add: PrimaryExpression.simps)
        with "1.hyps" [OF nonum True Halt] show ?thesis by simp
      next
        case (Ret expr w1)
        with "1.prems" nonum True have "Expect E TK_RPAREN w1 = Halt h w'"
          by (simp add: PrimaryExpression.simps split: run.splits)
        then show ?thesis by (auto simp: Expect_def fatal_def Let_def split: if_splits)
      qed
    next
      case False
      with "1.prems" nonum show ?thesis
        by (auto simp: PrimaryExpression.simps Error_def fatal_def Let_def
            split: run.splits if_splits)
    qed
  qed
next
  case (2 E w)
  show ?case
  proof (cases "PrimaryExpression E w")
    case (Halt h1 w1)
    with "2.prems" have "h1 = h" by (simp add: MultiplicativeExpression.simps)
    with "2.hyps"(1) [OF Halt] show ?thesis by simp
  next
    case (Ret left w1)
    with "2.prems" have "MultiplicativeLoop E left w1 = Halt h w'"
      by (simp add: MultiplicativeExpression.simps)
    from "2.hyps"(2) [OF Ret this] show ?thesis .
  qed
next
  case (3 E left w)
  show ?case
  proof (cases "kind (curToken w) = TK_MUL \<or> kind (curToken w) = TK_DIV")
    case False
    with "3.prems" show ?thesis by (simp add: MultiplicativeLoop_simps)
  next
    case True
    obtain n w1 where nt: "NewTemp w = (n, w1)" by (cases "NewTemp w")
    show ?thesis
    proof (cases "PrimaryExpression E (NEXT_TOKEN w1)")
      case (Halt h1 w2)
      with "3.prems" True nt have "h1 = h" by (simp add: MultiplicativeLoop_simps)
      with "3.hyps"(1) [OF True nt [symmetric] Halt] show ?thesis by simp
    next
      case (Ret right w2)
      with "3.prems" True nt have "MultiplicativeLoop E
        (Some (CreateAstExprNode (kind (curToken w1)) (temp_value E n) left right)) w2 =
        Halt h w'" by (simp add: MultiplicativeLoop_simps)
      from "3.hyps"(2) [OF True nt [symmetric] Ret this] show ?thesis .
    qed
  qed
next
  case (4 E w)
  show ?case
  proof (cases "MultiplicativeExpression E w")
    case (Halt h1 w1)
    with "4.prems" have "h1 = h" by (simp add: AdditiveExpression.simps)
    with "4.hyps"(1) [OF Halt] show ?thesis by simp
  next
    case (Ret left w1)
    with "4.prems" have "AdditiveLoop E left w1 = Halt h w'"
      by (simp add: AdditiveExpression.simps)
    from "4.hyps"(2) [OF Ret this] show ?thesis .
  qed
next
  case (5 E left w)
  show ?case
  proof (cases "kind (curToken w) = TK_SUB \<or> kind (curToken w) = TK_ADD")
    case False
    with "5.prems" show ?thesis by (simp add: AdditiveLoop_simps)
  next
    case True
    obtain n w1 where nt: "NewTemp w = (n, w1)" by (cases "NewTemp w")
    show ?thesis
    proof (cases "MultiplicativeExpression E (NEXT_TOKEN w1)")
      case (Halt h1 w2)
      with "5.prems" True nt have "h1 = h" by (simp add: AdditiveLoop_simps)
      with "5.hyps"(1) [OF True nt [symmetric] Halt] show ?thesis by simp
    next
      case (Ret right w2)
      with "5.prems" True nt have "AdditiveLoop E
        (Some (CreateAstExprNode (kind (curToken w1)) (temp_value E n) left right)) w2 =
        Halt h w'" by (simp add: AdditiveLoop_simps)
      from "5.hyps"(2) [OF True nt [symmetric] Ret this] show ?thesis .
    qed
  qed
next
  case (6 E w)
  then show ?case by (simp add: Expression.simps)
qed

subsection \<open>The parser does not read what was printed or reported\<close>

lemma reframe_start: "w\<lparr>out := ou, err := e\<rparr> = reframe ou e w w"
  by (simp add: reframe_def)

lemma reframe_as_update:
  "reframe ou e w w1 = w1\<lparr>out := ou, err := e @ drop (length (err w)) (err w1)\<rparr>"
  by (simp add: reframe_def)

lemma reframe_NEXT_TOKEN:
  "NEXT_TOKEN (reframe ou e w w') = reframe ou e w (NEXT_TOKEN w')"
  "reframe ou e (NEXT_TOKEN w) w' = reframe ou e w w'"
  by (simp_all add: reframe_def NEXT_TOKEN_def)

lemma reframe_NewTemp:
  "NewTemp (reframe ou e w w') = (fst (NewTemp w'), reframe ou e w (snd (NewTemp w')))"
  "reframe ou e (snd (NewTemp w)) w' = reframe ou e w w'"
  by (simp_all add: reframe_def NewTemp_def)

lemma curToken_reframe: "curToken (reframe ou e w w') = curToken w'"
  by (simp add: reframe_def curToken_def)

lemma reframe_shift:
  "reframe ou e w w1 = reframe ou (e @ drop (length (err w)) (err w1)) w1 w1"
  by (simp add: reframe_def)

lemma reframe_compose:
  assumes "advances w w1" and "advances w1 w2"
  shows "reframe ou (e @ drop (length (err w)) (err w1)) w1 w2 = reframe ou e w w2"
proof -
  from assms obtain xs ys where "err w1 = err w @ xs" "err w2 = err w1 @ ys"
    unfolding advances_iff by blast
  then show ?thesis by (simp add: reframe_def)
qed

lemma map_world_compose:
  assumes "advances w w1" and "advances w1 (final r)"
  shows "map_world (reframe ou (e @ drop (length (err w)) (err w1)) w1) r =
    map_world (reframe ou e w) r"
  using reframe_compose [OF assms] by (cases r) simp_all

lemma fatal_reframe:
  assumes "advances w w'"
  shows "fatal E r (reframe ou e w w') = map_world (reframe ou e w) (fatal E r w')"
proof -
  from assms obtain xs where "err w' = err w @ xs" unfolding advances_iff by blast
  then show ?thesis by (simp add: fatal_def reframe_def Let_def)
qed

lemma Expect_reframe:
  assumes "advances w w'"
  shows "Expect E tk (reframe ou e w w') = map_world (reframe ou e w) (Expect E tk w')"
  using fatal_reframe [OF assms]
  by (simp add: Expect_def curToken_reframe reframe_NEXT_TOKEN)

lemma parse_reframe:
  "PrimaryExpression E (reframe ou e w w) =
     map_world (reframe ou e w) (PrimaryExpression E w)"
  "MultiplicativeExpression E (reframe ou e w w) =
     map_world (reframe ou e w) (MultiplicativeExpression E w)"
  "MultiplicativeLoop E left (reframe ou e w w) =
     map_world (reframe ou e w) (MultiplicativeLoop E left w)"
  "AdditiveExpression E (reframe ou e w w) =
     map_world (reframe ou e w) (AdditiveExpression E w)"
  "AdditiveLoop E left (reframe ou e w w) =
     map_world (reframe ou e w) (AdditiveLoop E left w)"
  "Expression E (reframe ou e w w) =
     map_world (reframe ou e w) (Expression E w)"
proof (induct E w and E w and E left w and E w and E left w and E w
    arbitrary: ou e and ou e and ou e and ou e and ou e and ou e
    rule: parse_induct)
  case (1 E w)
  show ?case
  proof (cases "kind (curToken w) = TK_NUM")
    case True
    then show ?thesis
      by (simp add: PrimaryExpression.simps curToken_reframe reframe_NEXT_TOKEN)
  next
    case nonum: False
    show ?thesis
    proof (cases "kind (curToken w) = TK_LPAREN")
      case True
      have a0: "advances w (NEXT_TOKEN w)"
        using True by (intro advances_NEXT_TOKEN) simp
      have ih: "Expression E (reframe ou e w (NEXT_TOKEN w)) =
        map_world (reframe ou e w) (Expression E (NEXT_TOKEN w))"
        using "1.hyps" [OF nonum True, of ou e] by (simp add: reframe_NEXT_TOKEN)
      show ?thesis
      proof (cases "Expression E (NEXT_TOKEN w)")
        case (Halt h w1)
        with nonum True ih show ?thesis
          by (simp add: PrimaryExpression.simps curToken_reframe reframe_NEXT_TOKEN)
      next
        case (Ret expr w1)
        from parse_advances(6) [of "NEXT_TOKEN w" E] Ret
        have "advances (NEXT_TOKEN w) w1" by simp
        with a0 have a1: "advances w w1" by (rule advances_trans)
        from Expect_reframe [OF a1] nonum True ih Ret show ?thesis
          by (cases "Expect E TK_RPAREN w1")
            (simp_all add: PrimaryExpression.simps curToken_reframe reframe_NEXT_TOKEN)
      qed
    next
      case False
      from fatal_reframe [OF advances_refl, of E _ ou e w] nonum False show ?thesis
        by (cases "fatal E (Message ''number or '(' expected'') w")
          (simp_all add: PrimaryExpression.simps curToken_reframe Error_def)
    qed
  qed
next
  case (2 E w)
  show ?case
  proof (cases "PrimaryExpression E w")
    case (Halt h w1)
    with "2.hyps"(1) [of ou e] show ?thesis by (simp add: MultiplicativeExpression.simps)
  next
    case (Ret left w1)
    from parse_advances(1) [of w E] Ret have a1: "advances w w1" by simp
    have a2: "advances w1 (final (MultiplicativeLoop E left w1))" by (rule parse_advances)
    let ?e = "e @ drop (length (err w)) (err w1)"
    have "MultiplicativeLoop E left (reframe ou e w w1) = MultiplicativeLoop E left (reframe ou ?e w1 w1)"
      by (simp only: reframe_shift [of ou e w w1])
    also have "\<dots> = map_world (reframe ou ?e w1) (MultiplicativeLoop E left w1)"
      by (rule "2.hyps"(2) [OF Ret])
    also have "\<dots> = map_world (reframe ou e w) (MultiplicativeLoop E left w1)"
      by (rule map_world_compose [OF a1 a2])
    finally show ?thesis using "2.hyps"(1) [of ou e] Ret by (simp add: MultiplicativeExpression.simps)
  qed
next
  case (3 E left w)
  show ?case
  proof (cases "kind (curToken w) = TK_MUL \<or> kind (curToken w) = TK_DIV")
    case False
    then show ?thesis
      by (simp add: MultiplicativeLoop_simps curToken_reframe)
  next
    case True
    then have op: "isArithmeticOperator (kind (curToken w))" by auto
    obtain n w1 where nt: "NewTemp w = (n, w1)" by (cases "NewTemp w")
    then have nt': "NewTemp (reframe ou e w w) = (n, reframe ou e w w1)"
      by (simp add: reframe_NewTemp)
    have c1: "curToken (reframe ou e w w1) = curToken w1" by (rule curToken_reframe)
    have a0: "advances w (NEXT_TOKEN w1)" using op nt by (rule advances_operator)
    have r0: "reframe ou e (NEXT_TOKEN w1) = reframe ou e w"
      using nt by (auto simp: reframe_def NewTemp_def NEXT_TOKEN_def)
    have ih1: "PrimaryExpression E (NEXT_TOKEN (reframe ou e w w1)) =
      map_world (reframe ou e w) (PrimaryExpression E (NEXT_TOKEN w1))"
    proof -
      have "NEXT_TOKEN (reframe ou e w w1) =
        reframe ou e (NEXT_TOKEN w1) (NEXT_TOKEN w1)"
        by (simp add: reframe_NEXT_TOKEN r0)
      with "3.hyps"(1) [OF True nt [symmetric], of ou e] r0 show ?thesis by simp
    qed
    show ?thesis
    proof (cases "PrimaryExpression E (NEXT_TOKEN w1)")
      case (Halt h w2)
      with True nt nt' ih1 show ?thesis
        by (simp add: MultiplicativeLoop_simps curToken_reframe)
    next
      case (Ret right w2)
      let ?N = "Some (CreateAstExprNode (kind (curToken w1)) (temp_value E n) left right)"
      from parse_advances(1) [of "NEXT_TOKEN w1" E] Ret
      have "advances (NEXT_TOKEN w1) w2" by simp
      with a0 have a1: "advances w w2" by (rule advances_trans)
      have a2: "advances w2 (final (MultiplicativeLoop E ?N w2))" by (rule parse_advances)
      let ?e = "e @ drop (length (err w)) (err w2)"
      have "MultiplicativeLoop E ?N (reframe ou e w w2) = MultiplicativeLoop E ?N (reframe ou ?e w2 w2)"
        by (simp only: reframe_shift [of ou e w w2])
      also have "\<dots> = map_world (reframe ou ?e w2) (MultiplicativeLoop E ?N w2)"
        by (rule "3.hyps"(2) [OF True nt [symmetric] Ret])
      also have "\<dots> = map_world (reframe ou e w) (MultiplicativeLoop E ?N w2)"
        by (rule map_world_compose [OF a1 a2])
      finally show ?thesis using True nt nt' ih1 Ret c1
        by (simp add: MultiplicativeLoop_simps curToken_reframe)
    qed
  qed
next
  case (4 E w)
  show ?case
  proof (cases "MultiplicativeExpression E w")
    case (Halt h w1)
    with "4.hyps"(1) [of ou e] show ?thesis by (simp add: AdditiveExpression.simps)
  next
    case (Ret left w1)
    from parse_advances(2) [of w E] Ret have a1: "advances w w1" by simp
    have a2: "advances w1 (final (AdditiveLoop E left w1))" by (rule parse_advances)
    let ?e = "e @ drop (length (err w)) (err w1)"
    have "AdditiveLoop E left (reframe ou e w w1) = AdditiveLoop E left (reframe ou ?e w1 w1)"
      by (simp only: reframe_shift [of ou e w w1])
    also have "\<dots> = map_world (reframe ou ?e w1) (AdditiveLoop E left w1)"
      by (rule "4.hyps"(2) [OF Ret])
    also have "\<dots> = map_world (reframe ou e w) (AdditiveLoop E left w1)"
      by (rule map_world_compose [OF a1 a2])
    finally show ?thesis using "4.hyps"(1) [of ou e] Ret by (simp add: AdditiveExpression.simps)
  qed
next
  case (5 E left w)
  show ?case
  proof (cases "kind (curToken w) = TK_SUB \<or> kind (curToken w) = TK_ADD")
    case False
    then show ?thesis
      by (simp add: AdditiveLoop_simps curToken_reframe)
  next
    case True
    then have op: "isArithmeticOperator (kind (curToken w))" by auto
    obtain n w1 where nt: "NewTemp w = (n, w1)" by (cases "NewTemp w")
    then have nt': "NewTemp (reframe ou e w w) = (n, reframe ou e w w1)"
      by (simp add: reframe_NewTemp)
    have c1: "curToken (reframe ou e w w1) = curToken w1" by (rule curToken_reframe)
    have a0: "advances w (NEXT_TOKEN w1)" using op nt by (rule advances_operator)
    have r0: "reframe ou e (NEXT_TOKEN w1) = reframe ou e w"
      using nt by (auto simp: reframe_def NewTemp_def NEXT_TOKEN_def)
    have ih1: "MultiplicativeExpression E (NEXT_TOKEN (reframe ou e w w1)) =
      map_world (reframe ou e w) (MultiplicativeExpression E (NEXT_TOKEN w1))"
    proof -
      have "NEXT_TOKEN (reframe ou e w w1) =
        reframe ou e (NEXT_TOKEN w1) (NEXT_TOKEN w1)"
        by (simp add: reframe_NEXT_TOKEN r0)
      with "5.hyps"(1) [OF True nt [symmetric], of ou e] r0 show ?thesis by simp
    qed
    show ?thesis
    proof (cases "MultiplicativeExpression E (NEXT_TOKEN w1)")
      case (Halt h w2)
      with True nt nt' ih1 show ?thesis
        by (simp add: AdditiveLoop_simps curToken_reframe)
    next
      case (Ret right w2)
      let ?N = "Some (CreateAstExprNode (kind (curToken w1)) (temp_value E n) left right)"
      from parse_advances(2) [of "NEXT_TOKEN w1" E] Ret
      have "advances (NEXT_TOKEN w1) w2" by simp
      with a0 have a1: "advances w w2" by (rule advances_trans)
      have a2: "advances w2 (final (AdditiveLoop E ?N w2))" by (rule parse_advances)
      let ?e = "e @ drop (length (err w)) (err w2)"
      have "AdditiveLoop E ?N (reframe ou e w w2) = AdditiveLoop E ?N (reframe ou ?e w2 w2)"
        by (simp only: reframe_shift [of ou e w w2])
      also have "\<dots> = map_world (reframe ou ?e w2) (AdditiveLoop E ?N w2)"
        by (rule "5.hyps"(2) [OF True nt [symmetric] Ret])
      also have "\<dots> = map_world (reframe ou e w) (AdditiveLoop E ?N w2)"
        by (rule map_world_compose [OF a1 a2])
      finally show ?thesis using True nt nt' ih1 Ret c1
        by (simp add: AdditiveLoop_simps curToken_reframe)
    qed
  qed
next
  case (6 E w)
  then show ?case by (simp add: Expression.simps)
qed


lemma Expression_same_input:
  assumes "toks v = toks w" and "tmpNo v = tmpNo w"
  shows "Expression E v = map_world (reframe (out v) (err v) w) (Expression E w)"
proof -
  from assms have "v = reframe (out v) (err v) w w" by (simp add: reframe_def)
  then have "Expression E v = Expression E (reframe (out v) (err v) w w)" by simp
  then show ?thesis by (simp only: parse_reframe)
qed

subsection \<open>The shape of a tree\<close>

lemma wellformed_subnodes:
  assumes "wellformed t" and "n \<in> set (subnodes t)"
  shows "(op n = TK_NUM \<and> kid0 n = None \<and> kid1 n = None) \<or>
         (isArithmeticOperator (op n) \<and> kid0 n \<noteq> None \<and> kid1 n \<noteq> None)"
  using assms
proof (induction t)
  case (Node tk v k0 k1)
  show ?case
  proof (cases "n = Node tk v k0 k1")
    case True
    with Node.prems(1) show ?thesis by (auto split: if_splits option.splits)
  next
    case False
    with Node.prems obtain l r where k: "k0 = Some l" "k1 = Some r"
      and wf: "wellformed l" "wellformed r"
      and n: "n \<in> set (subnodes l) \<or> n \<in> set (subnodes r)"
      by (auto split: if_splits option.splits)
    from n show ?thesis
    proof
      assume "n \<in> set (subnodes l)"
      with Node.IH(1) [of l] k wf show ?thesis by simp
    next
      assume "n \<in> set (subnodes r)"
      with Node.IH(2) [of r] k wf show ?thesis by simp
    qed
  qed
qed

lemma subnodes_inorder:
  assumes "n \<in> set (subnodes t)"
  shows "(op n, nval n) \<in> set (inorder t)"
  using assms
proof (induction t)
  case (Node tk v k0 k1)
  show ?case
  proof (cases "n = Node tk v k0 k1")
    case True
    then show ?thesis by simp
  next
    case False
    with Node.prems consider
      (left) l where "k0 = Some l" "n \<in> set (subnodes l)"
      | (right) r where "k1 = Some r" "n \<in> set (subnodes r)"
      by (auto split: option.splits)
    then show ?thesis
    proof cases
      case left
      with Node.IH(1) [of l] show ?thesis by simp
    next
      case right
      with Node.IH(2) [of r] show ?thesis by simp
    qed
  qed
qed

lemma label_literal:
  assumes "(TK_NUM, v) \<in> set (label E c cs)"
  shows "\<exists>t \<in> set cs. kind t = TK_NUM \<and> val t = v"
  using assms
proof (induction cs arbitrary: c)
  case Nil
  then show ?case by simp
next
  case (Cons t cs)
  then show ?case by (auto split: if_splits)
qed

subsection \<open>What the interpreter prints\<close>

lemma emits_iff:
  "emits w w' k \<longleftrightarrow> (\<exists>ls. length ls = k \<and> w' = w\<lparr>out := out w @ ls\<rparr>)"
proof
  assume e: "emits w w' k"
  then have "out w' = out w @ drop (length (out w)) (out w')"
    unfolding emits_def by (metis append_take_drop_id)
  with e have "length (drop (length (out w)) (out w')) = k \<and>
    w' = w\<lparr>out := out w @ drop (length (out w)) (out w')\<rparr>"
    unfolding emits_def by simp
  then show "\<exists>ls. length ls = k \<and> w' = w\<lparr>out := out w @ ls\<rparr>" by blast
next
  assume "\<exists>ls. length ls = k \<and> w' = w\<lparr>out := out w @ ls\<rparr>"
  then show "emits w w' k" by (auto simp: emits_def)
qed

lemma emits_refl: "emits w w 0"
  by (simp add: emits_iff)

lemma emits_trans: "emits w w1 j \<Longrightarrow> emits w1 w2 k \<Longrightarrow> emits w w2 (j + k)"
proof -
  assume "emits w w1 j" and "emits w1 w2 k"
  then obtain xs ys where "length xs = j" "w1 = w\<lparr>out := out w @ xs\<rparr>"
    "length ys = k" "w2 = w1\<lparr>out := out w1 @ ys\<rparr>"
    unfolding emits_iff by blast
  then have "length (xs @ ys) = j + k \<and> w2 = w\<lparr>out := out w @ (xs @ ys)\<rparr>" by simp
  then show ?thesis unfolding emits_iff by blast
qed

lemma emits_EmitIR: "emits w (EmitIR s w) 1"
  unfolding emits_iff EmitIR_def by (intro exI [of _ "[s]"]) simp

lemma emits_step: "emits w w2 k \<Longrightarrow> emits w (EmitIR s w2) (Suc k)"
  using emits_trans [OF _ emits_EmitIR, of w w2 k s] by simp

lemma operator_nodes_leaf: "operator_nodes (Node TK_NUM v None None) = []"
  by (simp add: operator_nodes_def)

lemma operator_nodes_Node:
  "isArithmeticOperator tk \<Longrightarrow>
   operator_nodes (Node tk v (Some l) (Some r)) = operator_nodes l @ (tk, v) # operator_nodes r"
  by (simp add: operator_nodes_def)

lemma EvalExpression_operator:
  assumes "isArithmeticOperator tk"
  shows "EvalExpression E (Some (Node tk v (Some l) (Some r))) w =
    (case EvalExpression E (Some l) w of
       Halt h w1 \<Rightarrow> Halt h w1
     | Ret a w1 \<Rightarrow>
         (case EvalExpression E (Some r) w1 of
            Halt h w2 \<Rightarrow> Halt h w2
          | Ret b w2 \<Rightarrow>
              (if tk = TK_DIV then
                 (case long_div a b of
                    None \<Rightarrow> Halt Fault w2
                  | Some q \<Rightarrow> Ret q (EmitIR (instr (name v) (name (nval l)) ''/'' (name (nval r))) w2))
               else
                 Ret (if tk = TK_ADD then a + b else if tk = TK_SUB then a - b else a * b)
                   (EmitIR (instr (name v) (name (nval l))
                      (if tk = TK_ADD then ''+'' else if tk = TK_SUB then ''-'' else ''*'')
                      (name (nval r))) w2))))"
  using assms
  by (auto simp: EvalExpression.simps(2) [of E "Node tk v (Some l) (Some r)"]
      isArithmeticOperator_def split: run.splits option.splits)

text \<open>
  On a well-formed tree the interpreter returns exactly when the tree stands for a number,
  with that number and one instruction for each operator node; otherwise it stops at a
  division, with fewer instructions.
\<close>

lemma EvalExpression_arith:
  assumes "wellformed t"
  shows "case arith t of
           Some v \<Rightarrow> \<exists>w'. EvalExpression E (Some t) w = Ret v w' \<and>
             emits w w' (length (operator_nodes t))
         | None \<Rightarrow> \<exists>w' k. EvalExpression E (Some t) w = Halt Fault w' \<and> emits w w' k \<and>
             k < length (operator_nodes t)"
  using assms
proof (induction t arbitrary: w)
  case (Node tk v k0 k1)
  show ?case
  proof (cases "tk = TK_NUM")
    case True
    with Node.prems have "k0 = None" "k1 = None" by simp_all
    with True show ?thesis
      by (simp add: EvalExpression.simps operator_nodes_leaf emits_refl)
  next
    case False
    with Node.prems obtain l r where
      k: "k0 = Some l" "k1 = Some r" and wf: "wellformed l" "wellformed r"
      and op: "isArithmeticOperator tk"
      by (auto split: option.splits)
    let ?nl = "length (operator_nodes l)" and ?nr = "length (operator_nodes r)"
    have n: "length (operator_nodes (Node tk v (Some l) (Some r))) = Suc (?nl + ?nr)"
      using op by (simp add: operator_nodes_Node)
    note ev = EvalExpression_operator [OF op, of E v l r w]
    note il = Node.IH(1) [of l w, simplified k, simplified, OF wf(1)]
    show ?thesis
    proof (cases "arith l")
      case None
      with il obtain w1 j where
        "EvalExpression E (Some l) w = Halt Fault w1" "emits w w1 j" "j < ?nl" by auto
      moreover then have "j < Suc (?nl + ?nr)" by simp
      ultimately show ?thesis using None False unfolding k n ev by auto
    next
      case a: (Some a)
      with il obtain w1 where
        l: "EvalExpression E (Some l) w = Ret a w1" "emits w w1 ?nl" by auto
      note ir = Node.IH(2) [of r w1, simplified k, simplified, OF wf(2)]
      show ?thesis
      proof (cases "arith r")
        case None
        with ir obtain w2 j where
          r: "EvalExpression E (Some r) w1 = Halt Fault w2" "emits w1 w2 j" "j < ?nr" by auto
        from emits_trans [OF l(2) r(2)] r(3)
        have "emits w w2 (?nl + j) \<and> ?nl + j < Suc (?nl + ?nr)" by simp
        with l(1) r(1) a None False show ?thesis unfolding k n ev by auto
      next
        case b: (Some b)
        with ir obtain w2 where
          r: "EvalExpression E (Some r) w1 = Ret b w2" "emits w1 w2 ?nr" by auto
        note e2 = emits_trans [OF l(2) r(2)]
        show ?thesis
        proof (cases "tk = TK_DIV \<and> long_div a b = None")
          case True
          moreover from e2 have "emits w w2 (?nl + ?nr) \<and> ?nl + ?nr < Suc (?nl + ?nr)" by simp
          ultimately show ?thesis using l(1) r(1) a b False unfolding k n ev by auto
        next
          case nd: False
          with emits_step [OF e2] l(1) r(1) a b False op show ?thesis
            unfolding k n ev by (auto simp: isArithmeticOperator_def split: option.splits)
        qed
      qed
    qed
  qed
qed

text \<open>
  A well-formed tree stands for no number exactly when it has a division node whose
  operands stand for numbers that have no quotient; a tree parsed from tokens without
  \<^verbatim>\<open>/\<close> has no such node.
\<close>

lemma arith_None_iff:
  assumes "wellformed t"
  shows "arith t = None \<longleftrightarrow>
    (\<exists>n \<in> set (subnodes t). op n = TK_DIV \<and>
       (\<exists>l r a b. kid0 n = Some l \<and> kid1 n = Some r \<and> arith l = Some a \<and> arith r = Some b \<and>
          (b = 0 \<or> a = LONG_MIN \<and> b = - 1)))"
  using assms
proof (induction t)
  case (Node tk v k0 k1)
  let ?bad = "\<lambda>n. op n = TK_DIV \<and>
       (\<exists>l r a b. kid0 n = Some l \<and> kid1 n = Some r \<and> arith l = Some a \<and> arith r = Some b \<and>
          (b = 0 \<or> a = LONG_MIN \<and> b = - 1))"
  show ?case
  proof (cases "tk = TK_NUM")
    case True
    with Node.prems have "k0 = None" "k1 = None" by simp_all
    with True show ?thesis by simp
  next
    case False
    with Node.prems obtain l r where
      k: "k0 = Some l" "k1 = Some r" and wf: "wellformed l" "wellformed r"
      by (auto split: option.splits)
    from Node.IH(1) [of l] k wf
    have il: "arith l = None \<longleftrightarrow> (\<exists>n \<in> set (subnodes l). ?bad n)" by simp
    from Node.IH(2) [of r] k wf
    have ir: "arith r = None \<longleftrightarrow> (\<exists>n \<in> set (subnodes r). ?bad n)" by simp
    have ld: "long_div a b = None \<longleftrightarrow> b = 0 \<or> a = LONG_MIN \<and> b = - 1" for a b
      by (simp add: long_div_def)
    have here: "?bad (Node tk v k0 k1) \<longleftrightarrow>
      tk = TK_DIV \<and> (\<exists>a b. arith l = Some a \<and> arith r = Some b \<and> long_div a b = None)"
      using ld by (simp add: k)
    have split: "(\<exists>n \<in> set (subnodes (Node tk v k0 k1)). ?bad n) \<longleftrightarrow>
      ?bad (Node tk v k0 k1) \<or> (\<exists>n \<in> set (subnodes l). ?bad n) \<or> (\<exists>n \<in> set (subnodes r). ?bad n)"
      unfolding k by (simp add: bex_Un)
    have main: "arith (Node tk v k0 k1) = None \<longleftrightarrow>
      arith l = None \<or> arith r = None \<or>
      (tk = TK_DIV \<and> (\<exists>a b. arith l = Some a \<and> arith r = Some b \<and> long_div a b = None))"
      using False by (auto simp: k split: option.splits)
    show ?thesis unfolding split here main il ir by blast
  qed
qed

lemma label_kinds:
  assumes "(tk, v) \<in> set (label E c cs)"
  shows "tk \<in> kind ` set cs"
  using assms
proof (induction cs arbitrary: c)
  case Nil
  then show ?case by simp
next
  case (Cons t cs)
  then show ?case by (auto split: if_splits)
qed

lemma parses_without_division:
  assumes "parses E c cs t" and "TK_DIV \<notin> kind ` set cs"
  shows "arith t \<noteq> None"
proof
  assume "arith t = None"
  moreover from assms(1) have wf: "wellformed t" and io: "inorder t = label E c cs"
    by (simp_all add: parses_def)
  ultimately obtain n where "n \<in> set (subnodes t)" "op n = TK_DIV"
    using arith_None_iff [OF wf] by blast
  with subnodes_inorder [of n t] io have "(TK_DIV, nval n) \<in> set (label E c cs)" by simp
  with label_kinds assms(2) show False by blast
qed

subsection \<open>The counter and the quotient as numbers\<close>

lemma sint_add_of_nat:
  fixes c :: cint
  assumes "sint c + int i < 2 ^ 31"
  shows "sint (c + of_nat i) = sint c + int i"
proof -
  have "c + of_nat i = word_of_int (sint c + int i)" by simp
  moreover have "- (2 ^ 31) \<le> sint c" using sint_ge [of c] by simp
  then have "- (2 ^ 31) \<le> sint c + int i" by simp
  moreover have "signed_take_bit 31 (sint c + int i) = sint c + int i"
    using assms \<open>- (2 ^ 31) \<le> sint c + int i\<close>
    by (intro signed_take_bit_int_eq_self) simp_all
  ultimately show ?thesis by (simp only: sint_sbintrunc') simp
qed

lemma temps_nth: "i < n \<Longrightarrow> temps c n ! i = c + of_nat i"
  by (simp add: temps_def)

lemma temps_increasing:
  assumes "sint c + int n \<le> 2 ^ 31"
  shows "sorted_wrt (<) (map sint (temps c n))"
proof -
  have "sint (temps c n ! i) < sint (temps c n ! j)" if "i < j" "j < n" for i j
  proof -
    from that assms have "sint c + int i < 2 ^ 31" "sint c + int j < 2 ^ 31" by simp_all
    then have "sint (c + of_nat i) = sint c + int i" "sint (c + of_nat j) = sint c + int j"
      by (simp_all only: sint_add_of_nat)
    with that show ?thesis by (simp add: temps_nth)
  qed
  then show ?thesis by (simp add: sorted_wrt_iff_nth_less)
qed

lemma temps_distinct:
  assumes "sint c + int n \<le> 2 ^ 31"
  shows "distinct (temps c n)"
proof -
  from temps_increasing [OF assms] have "distinct (map sint (temps c n))"
    by (simp add: strict_sorted_iff)
  then show ?thesis by (simp add: distinct_map)
qed

lemma sdiv_representable:
  fixes x y :: int
  assumes x: "- (2 ^ 63) \<le> x" "x < 2 ^ 63" and y: "y \<noteq> 0"
    and c: "\<not> (x = - (2 ^ 63) \<and> y = - 1)"
  shows "- (2 ^ 63) \<le> x sdiv y \<and> x sdiv y < 2 ^ 63"
proof -
  consider "y = 1" | "y = - 1" | "2 \<le> \<bar>y\<bar>" using y by linarith
  then show ?thesis
  proof cases
    case 1
    with x show ?thesis by simp
  next
    case 2
    with x c show ?thesis by simp
  next
    case 3
    define q where "q = \<bar>x\<bar> div \<bar>y\<bar>"
    have "q \<le> \<bar>x\<bar> div 2"
      unfolding q_def using 3 by (intro zdiv_mono2) simp_all
    moreover have "\<bar>x\<bar> \<le> 2 ^ 63" using x by simp
    ultimately have q: "q < 2 ^ 63" by simp
    have "0 \<le> q" unfolding q_def using 3 by (intro pos_imp_zdiv_nonneg_iff [THEN iffD2]) simp_all
    have "\<bar>x sdiv y\<bar> \<le> q"
      unfolding signed_divide_int_def q_def [symmetric] using \<open>0 \<le> q\<close>
      by (simp add: abs_mult sgn_if)
    with q show ?thesis by linarith
  qed
qed

lemma long_div_exact:
  assumes "long_div a b = Some q"
  shows "sint q = sint a sdiv sint b"
proof -
  from assms have b: "b \<noteq> 0" and c: "\<not> (a = LONG_MIN \<and> b = - 1)"
    and q: "q = word_of_int (sint a sdiv sint b)"
    by (auto simp: long_div_def split: if_splits)
  have bnd: "- (2 ^ 63) \<le> sint a" "sint a < 2 ^ 63"
    using sint_ge [of a] sint_lt [of a] by simp_all
  have b0: "sint b \<noteq> 0" using b by (simp add: signed_eq_0_iff)
  have "\<not> (sint a = - (2 ^ 63) \<and> sint b = - 1)"
  proof
    assume h: "sint a = - (2 ^ 63) \<and> sint b = - 1"
    then have "word_of_int (sint a) = (word_of_int (- (2 ^ 63)) :: long)"
      "word_of_int (sint b) = (word_of_int (- 1) :: long)" by simp_all
    then have "a = LONG_MIN" "b = - 1" by (simp_all add: LONG_MIN_def)
    with c show False by simp
  qed
  from sdiv_representable [OF bnd b0 this]
  have "signed_take_bit 63 (sint a sdiv sint b) = sint a sdiv sint b"
    by (intro signed_take_bit_int_eq_self) simp_all
  then show ?thesis unfolding q by (simp only: sint_sbintrunc') simp
qed

subsection \<open>The interpreter on a store\<close>

lemma holds_Node:
  assumes "holds s a (Node tk v k0 k1)"
  shows "\<exists>n. s a = Some n \<and> c_op n = tk \<and> c_value n = v \<and>
    (k0 = None \<longleftrightarrow> c_kid0 n = None) \<and> (k1 = None \<longleftrightarrow> c_kid1 n = None) \<and>
    (\<forall>l. k0 = Some l \<longrightarrow> (\<exists>a0. c_kid0 n = Some a0 \<and> holds s a0 l)) \<and>
    (\<forall>r. k1 = Some r \<longrightarrow> (\<exists>a1. c_kid1 n = Some a1 \<and> holds s a1 r))"
  using assms by (auto split: option.splits)

lemma holds_root:
  assumes "holds s a t"
  shows "\<exists>n. s a = Some n \<and> c_value n = nval t"
  using assms by (cases t) (auto split: option.splits)

lemma EvalExpression_store_holds:
  assumes "holds s a t"
  shows "EvalExpression_store E (Some a) (s, w) = Some (EvalExpression E (Some t) w, s)"
  using assms
proof (induction t arbitrary: a w)
  case (Node tk v k0 k1)
  from holds_Node [OF Node.prems] obtain n where all:
    "s a = Some n \<and> c_op n = tk \<and> c_value n = v \<and>
     (k0 = None \<longleftrightarrow> c_kid0 n = None) \<and> (k1 = None \<longleftrightarrow> c_kid1 n = None) \<and>
     (\<forall>l. k0 = Some l \<longrightarrow> (\<exists>a0. c_kid0 n = Some a0 \<and> holds s a0 l)) \<and>
     (\<forall>r. k1 = Some r \<longrightarrow> (\<exists>a1. c_kid1 n = Some a1 \<and> holds s a1 r))" ..
  then have n: "s a = Some n" "c_op n = tk" "c_value n = v"
    "k0 = None \<longleftrightarrow> c_kid0 n = None" "k1 = None \<longleftrightarrow> c_kid1 n = None"
    and kl: "\<forall>l. k0 = Some l \<longrightarrow> (\<exists>a0. c_kid0 n = Some a0 \<and> holds s a0 l)"
    and kr: "\<forall>r. k1 = Some r \<longrightarrow> (\<exists>a1. c_kid1 n = Some a1 \<and> holds s a1 r)"
    by simp_all
  show ?case
  proof (cases "tk = TK_NUM \<or> \<not> isArithmeticOperator tk \<or> k0 = None \<or> k1 = None")
    case True
    with n show ?thesis
      by (subst EvalExpression_store.simps)
        (auto simp: EvalExpression.simps split: run.splits)
  next
    case False
    then obtain l r where k: "k0 = Some l" "k1 = Some r"
      and op: "isArithmeticOperator tk" "tk \<noteq> TK_NUM" by auto
    from kl k(1) kr k(2) obtain a0 a1 where
      a: "c_kid0 n = Some a0" "holds s a0 l" "c_kid1 n = Some a1" "holds s a1 r" by blast
    from holds_root [OF a(2)] holds_root [OF a(4)] obtain n0 n1 where
      kids: "s a0 = Some n0" "c_value n0 = nval l" "s a1 = Some n1" "c_value n1 = nval r"
      by blast
    have ih0: "EvalExpression_store E (Some a0) (s, w') =
      Some (EvalExpression E (Some l) w', s)" for w'
      using Node.IH(1) [of l a0 w'] k a by simp
    have ih1: "EvalExpression_store E (Some a1) (s, w') =
      Some (EvalExpression E (Some r) w', s)" for w'
      using Node.IH(2) [of r a1 w'] k a by simp
    show ?thesis
      unfolding k
      apply (subst EvalExpression_store.simps)
      apply (subst EvalExpression.simps(2))
      using op n a kids
      apply (simp add: ih0 ih1 split: run.splits TokenKind.splits option.splits)
      done
  qed
qed

text \<open>
  Whatever the store holds (shared nodes and cycles included), a call that returns leaves the
  store as it was.
\<close>

lemma EvalExpression_store_frame:
  assumes "EvalExpression_store E root sw = Some y"
  shows "snd y = fst sw"
  using assms
proof (induct rule: EvalExpression_store.raw_induct [rotated 1, consumes 1])
  case (1 f E root sw y)
  note IH = "1"(1)
  note body = "1"(2)
  obtain s w where sw: "sw = (s, w)" by (cases sw)
  show ?case
  proof (cases root)
    case None
    with body sw show ?thesis by auto
  next
    case (Some a)
    show ?thesis
    proof (cases "s a")
      case None
      with body sw Some show ?thesis by auto
    next
      case n: (Some n)
      show ?thesis
      proof (cases "c_op n \<noteq> TK_NUM \<and> isArithmeticOperator (c_op n) \<and> c_kid0 n \<noteq> None
          \<and> c_kid1 n \<noteq> None")
        case False
        with body sw Some n show ?thesis by (auto split: if_splits run.splits)
      next
        case True
        with body sw Some n obtain r1 s1 where
          l: "f E (c_kid0 n) (s, w) = Some (r1, s1)"
          by (auto simp: Option.bind_eq_Some_conv)
        from IH [OF l] have s1: "s1 = s" by simp
        show ?thesis
        proof (cases r1)
          case (Halt h w1)
          with body sw Some n True l show ?thesis by (auto simp: s1)
        next
          case (Ret leftOperand w1)
          with body sw Some n True l obtain r2 s2 where
            r: "f E (c_kid1 n) (s1, w1) = Some (r2, s2)"
            by (auto simp: Option.bind_eq_Some_conv)
          from IH [OF r] have s2: "s2 = s" by (simp add: s1)
          from body sw Some n True l r Ret show ?thesis
            by (cases r2)
               (auto simp: s1 s2 split: option.splits TokenKind.splits)
        qed
      qed
    qed
  qed
qed


section \<open>The claims\<close>

lemmas parse_simps = PrimaryExpression.simps MultiplicativeExpression.simps
  MultiplicativeLoop_simps AdditiveExpression.simps AdditiveLoop_simps Expression.simps

lemmas run_defs = compile_def world0_def num_def tok_def curToken_def NEXT_TOKEN_def
  NewTemp_def CreateAstExprNode_def Expect_def fatal_def Error_def temp_value_def
  temp_name_def printf_d_def digit_def EmitIR_def instr_def isArithmeticOperator_def
  long_div_def LONG_MIN_def

lemmas example_defs = leaf_def binop_def plus_def minus_def slash_def lparen_def rparen_def
  env0_def env1_def consumed_def operators_def operator_nodes_def temps_def

subsection \<open>Three runs\<close>

text \<open>
  Claim C1. On the tokens of \<^verbatim>\<open>2 * 3 + 4\<close> the parser and the interpreter return 10. Two
  instructions are printed, the multiplication first. The parser has numbered the
  multiplication's destination before the addition's: the node of \<open>*\<close> is named \<open>t0\<close>
  and lies below the node of \<open>+\<close>, which is named \<open>t1\<close>. The operand names \<open>a\<close>,
  \<open>b\<close>, \<open>c\<close> are whatever names the scanner attached to the literals.
\<close>

theorem two_times_three_plus_four:
  assumes "3 \<le> MAX_ID_LEN E"
  shows "compile E (world0 [num a 2, tok TK_MUL u, num b 3, tok TK_ADD v, num c 4]) =
      Ret 10 \<lparr>toks = [], tmpNo = 2,
        out = [''t0 = '' @ a @ '' * '' @ b @ [CHR 0x0A],
               ''t1 = t0 + '' @ c @ [CHR 0x0A]],
        err = []\<rparr> \<and>
    Expression E (world0 [num a 2, tok TK_MUL u, num b 3, tok TK_ADD v, num c 4]) =
      Ret (Some (binop TK_ADD ''t1'' (binop TK_MUL ''t0'' (leaf a 2) (leaf b 3)) (leaf c 4)))
        \<lparr>toks = [], tmpNo = 2, out = [], err = []\<rparr>"
  using assms
  by (simp add: run_defs leaf_def binop_def parse_simps decimal.simps EvalExpression.simps)

theorem two_times_three_plus_four_witness:
  "compile env0
     (world0 [num ''2'' 2, tok TK_MUL \<lparr>name = ''*'', numVal = 0\<rparr>, num ''3'' 3,
        tok TK_ADD \<lparr>name = ''+'', numVal = 0\<rparr>, num ''4'' 4]) =
   Ret 10 \<lparr>toks = [], tmpNo = 2,
     out = [''t0 = 2 * 3'' @ [CHR 0x0A], ''t1 = t0 + 4'' @ [CHR 0x0A]], err = []\<rparr>"
  using two_times_three_plus_four [of env0 "''2''" "\<lparr>name = ''*'', numVal = 0\<rparr>" "''3''"
      "\<lparr>name = ''+'', numVal = 0\<rparr>" "''4''"]
  by (simp add: env0_def)

text \<open>
  Claim C2. On the tokens of \<^verbatim>\<open>(1 + 2) * 3\<close> the result is 9, and the instruction of the
  addition in parentheses is printed before the instruction of the multiplication.
\<close>

theorem one_plus_two_times_three:
  assumes "3 \<le> MAX_ID_LEN E"
  shows "compile E
      (world0 [tok TK_LPAREN p, num a 1, tok TK_ADD u, num b 2, tok TK_RPAREN q,
         tok TK_MUL v, num c 3]) =
    Ret 9 \<lparr>toks = [], tmpNo = 2,
      out = [''t0 = '' @ a @ '' + '' @ b @ [CHR 0x0A],
             ''t1 = t0 * '' @ c @ [CHR 0x0A]],
      err = []\<rparr>"
  using assms by (simp add: run_defs parse_simps decimal.simps EvalExpression.simps)

theorem one_plus_two_times_three_witness:
  "compile env0
     (world0 [tok TK_LPAREN \<lparr>name = ''('', numVal = 0\<rparr>, num ''1'' 1,
        tok TK_ADD \<lparr>name = ''+'', numVal = 0\<rparr>, num ''2'' 2,
        tok TK_RPAREN \<lparr>name = '')'', numVal = 0\<rparr>,
        tok TK_MUL \<lparr>name = ''*'', numVal = 0\<rparr>, num ''3'' 3]) =
   Ret 9 \<lparr>toks = [], tmpNo = 2,
     out = [''t0 = 1 + 2'' @ [CHR 0x0A], ''t1 = t0 * 3'' @ [CHR 0x0A]], err = []\<rparr>"
  using one_plus_two_times_three [of env0 "\<lparr>name = ''('', numVal = 0\<rparr>" "''1''"
      "\<lparr>name = ''+'', numVal = 0\<rparr>" "''2''" "\<lparr>name = '')'', numVal = 0\<rparr>"
      "\<lparr>name = ''*'', numVal = 0\<rparr>" "''3''"]
  by (simp add: env0_def)

text \<open>
  Claim C3. On the tokens of \<^verbatim>\<open>3 + 4\<close> the result is 7 and exactly one instruction is
  printed, \<open>t0 = a + b\<close>, where \<open>a\<close> and \<open>b\<close> are the names the scanner attached to the
  two literals.
\<close>

theorem three_plus_four:
  assumes "3 \<le> MAX_ID_LEN E"
  shows "compile E (world0 [num a 3, tok TK_ADD u, num b 4]) =
    Ret 7 \<lparr>toks = [], tmpNo = 1,
      out = [''t0 = '' @ a @ '' + '' @ b @ [CHR 0x0A]], err = []\<rparr>"
  using assms by (simp add: run_defs parse_simps decimal.simps EvalExpression.simps)

theorem three_plus_four_witness:
  "compile env0 (world0 [num ''3'' 3, tok TK_ADD \<lparr>name = ''+'', numVal = 0\<rparr>, num ''4'' 4]) =
   Ret 7 \<lparr>toks = [], tmpNo = 1, out = [''t0 = 3 + 4'' @ [CHR 0x0A]], err = []\<rparr>"
  using three_plus_four [of env0 "''3''" "\<lparr>name = ''+'', numVal = 0\<rparr>" "''4''"]
  by (simp add: env0_def)

subsection \<open>Instructions and operators\<close>

text \<open>
  Claim C4, as amended. After a parse that reports no error the tree is well formed, and the
  interpreter returns unless the tree has a division without a quotient: a division node
  whose operands evaluate to \<open>a\<close> and \<open>b\<close> with \<open>b = 0\<close>, or with \<open>a\<close> = \<^verbatim>\<open>LONG_MIN\<close> and
  \<open>b = -1\<close>. When it returns, the value is the number the tree stands for and exactly as
  many instructions have been printed as the parser consumed operator tokens; in particular
  that is so whenever no \<^verbatim>\<open>/\<close> was consumed. Otherwise it stops at the division, and fewer
  instructions have been printed. (The claim as stated promises the count for every
  well-formed expression: it fails on \<^verbatim>\<open>1 / 0\<close>.)
\<close>

theorem one_instruction_per_operator:
  assumes "Expression E w = Ret p w'" and "err w' = err w"
  shows "\<exists>t. p = Some t \<and> wellformed t \<and> toks w = consumed w w' @ toks w' \<and>
     (case arith t of
        Some v \<Rightarrow>
          \<exists>ls. EvalExpression E p w' = Ret v (w'\<lparr>out := out w @ ls\<rparr>) \<and>
            length ls = operators (consumed w w')
      | None \<Rightarrow>
          \<exists>ls. EvalExpression E p w' = Halt Fault (w'\<lparr>out := out w @ ls\<rparr>) \<and>
            length ls < operators (consumed w w')) \<and>
     (arith t = None \<longleftrightarrow>
        (\<exists>n \<in> set (subnodes t). op n = TK_DIV \<and>
           (\<exists>l r a b. kid0 n = Some l \<and> kid1 n = Some r \<and>
              arith l = Some a \<and> arith r = Some b \<and> (b = 0 \<or> a = LONG_MIN \<and> b = - 1)))) \<and>
     (TK_DIV \<notin> kind ` set (consumed w w') \<longrightarrow> arith t \<noteq> None)"
proof -
  from Expression_parses [OF assms] obtain t where
    t: "p = Some t" "parses E (tmpNo w) (consumed w w') t" "out w' = out w"
    and c: "toks w = consumed w w' @ toks w'" by blast
  from t(2) have wf: "wellformed t" by (simp add: parses_def)
  from parses_operator_nodes(1) [OF t(2)]
  have n: "length (operator_nodes t) = operators (consumed w w')" .
  have run: "case arith t of
        Some v \<Rightarrow>
          \<exists>ls. EvalExpression E p w' = Ret v (w'\<lparr>out := out w @ ls\<rparr>) \<and>
            length ls = operators (consumed w w')
      | None \<Rightarrow>
          \<exists>ls. EvalExpression E p w' = Halt Fault (w'\<lparr>out := out w @ ls\<rparr>) \<and>
            length ls < operators (consumed w w')"
    using EvalExpression_arith [OF wf, of E w'] unfolding emits_iff t(1) n [symmetric]
    by (auto simp: t(3) split: option.splits)
  from parses_without_division [OF t(2)]
  have nd: "TK_DIV \<notin> kind ` set (consumed w w') \<longrightarrow> arith t \<noteq> None" by blast
  from t(1) wf c run arith_None_iff [OF wf] nd show ?thesis
    by (intro exI [of _ t] conjI)
qed

theorem one_instruction_per_operator_witness:
  "Expression env0 (world0 [num ''8'' 8, slash, num ''2'' 2, plus, num ''1'' 1]) =
     Ret (Some (binop TK_ADD ''t1'' (binop TK_DIV ''t0'' (leaf ''8'' 8) (leaf ''2'' 2))
                  (leaf ''1'' 1)))
       \<lparr>toks = [], tmpNo = 2, out = [], err = []\<rparr> \<and>
   arith (binop TK_ADD ''t1'' (binop TK_DIV ''t0'' (leaf ''8'' 8) (leaf ''2'' 2))
            (leaf ''1'' 1)) = Some 5 \<and>
   operators [num ''8'' 8, slash, num ''2'' 2, plus, num ''1'' 1] = 2 \<and>
   (\<exists>ls. EvalExpression env0
        (Some (binop TK_ADD ''t1'' (binop TK_DIV ''t0'' (leaf ''8'' 8) (leaf ''2'' 2))
                 (leaf ''1'' 1)))
        \<lparr>toks = [], tmpNo = 2, out = [], err = []\<rparr> =
      Ret 5 \<lparr>toks = [], tmpNo = 2, out = ls, err = []\<rparr> \<and> length ls = 2) \<and>
   EvalExpression env0
     (Some (binop TK_ADD ''t1'' (binop TK_DIV ''t0'' (leaf ''8'' 8) (leaf ''2'' 2))
              (leaf ''1'' 1)))
     \<lparr>toks = [], tmpNo = 2, out = [], err = []\<rparr> =
   Ret 5 \<lparr>toks = [], tmpNo = 2,
     out = [''t0 = 8 / 2'' @ [CHR 0x0A], ''t1 = t0 + 1'' @ [CHR 0x0A]], err = []\<rparr>"
proof -
  let ?ts = "[num ''8'' 8, slash, num ''2'' 2, plus, num ''1'' 1]"
  let ?t = "binop TK_ADD ''t1'' (binop TK_DIV ''t0'' (leaf ''8'' 8) (leaf ''2'' 2)) (leaf ''1'' 1)"
  let ?w = "\<lparr>toks = [], tmpNo = 2 :: cint, out = [], err = []\<rparr>"
  have p: "Expression env0 (world0 ?ts) = Ret (Some ?t) ?w"
    by (simp add: run_defs example_defs parse_simps decimal.simps)
  have e: "err ?w = err (world0 ?ts)"
    by (simp add: world0_def)
  have q: "sint (8 :: long) sdiv sint (2 :: long) = 4"
    by (simp add: signed_divide_int_def)
  have a: "arith ?t = Some 5"
    by (simp add: run_defs example_defs q)
  have n: "operators ?ts = 2" "consumed (world0 ?ts) ?w = ?ts" "out (world0 ?ts) = []"
    by (simp_all add: run_defs example_defs)
  have v: "EvalExpression env0 (Some ?t) ?w =
    Ret 5 \<lparr>toks = [], tmpNo = 2,
      out = [''t0 = 8 / 2'' @ [CHR 0x0A], ''t1 = t0 + 1'' @ [CHR 0x0A]], err = []\<rparr>"
    by (simp add: run_defs example_defs EvalExpression.simps q)
  from one_instruction_per_operator [OF p e] obtain t where
    "Some ?t = Some t"
    "case arith t of
        Some v \<Rightarrow>
          \<exists>ls. EvalExpression env0 (Some ?t) ?w = Ret v (?w\<lparr>out := out (world0 ?ts) @ ls\<rparr>) \<and>
            length ls = operators (consumed (world0 ?ts) ?w)
      | None \<Rightarrow>
          \<exists>ls. EvalExpression env0 (Some ?t) ?w = Halt Fault (?w\<lparr>out := out (world0 ?ts) @ ls\<rparr>) \<and>
            length ls < operators (consumed (world0 ?ts) ?w)"
    by blast
  with a have "\<exists>ls. EvalExpression env0 (Some ?t) ?w = Ret 5 (?w\<lparr>out := out (world0 ?ts) @ ls\<rparr>) \<and>
            length ls = operators (consumed (world0 ?ts) ?w)" by simp
  then have "\<exists>ls. EvalExpression env0 (Some ?t) ?w =
      Ret 5 \<lparr>toks = [], tmpNo = 2, out = ls, err = []\<rparr> \<and> length ls = 2"
    unfolding n by simp
  with p a n(1) v show ?thesis by blast
qed

text \<open>
  The tokens of \<^verbatim>\<open>1 / 0\<close>: the parse succeeds and the text has one operator, but the
  run stops at the division and has printed nothing.
\<close>

theorem division_by_zero_prints_nothing:
  "compile env0 (world0 [num ''1'' 1, slash, num ''0'' 0]) =
     Halt Fault \<lparr>toks = [], tmpNo = 1, out = [], err = []\<rparr> \<and>
   operators [num ''1'' 1, slash, num ''0'' 0] = 1"
  by (simp add: run_defs example_defs parse_simps decimal.simps EvalExpression.simps)

subsection \<open>Numbering of temporaries\<close>

text \<open>
  Claim C5, as amended. \<open>NewTemp\<close> returns the counter and adds one to it; the counter is
  zero when the process starts and nothing else writes it; a run of the parser, whether it
  succeeds or not, adds to it the number of operator tokens it consumed. After a parse
  that reports no error, the operator nodes, read in the order of the operators in the
  text, carry the names of the numbers \<open>c\<close>, \<open>c + 1\<close>, ... counted from the value \<open>c\<close>
  of the counter when the parse began: the numbering is a function of that value and of
  the input. As long as the 32-bit counter does not overflow these numbers are strictly
  increasing and distinct. A parse of the same tokens that begins with the same value of
  the counter, whatever has been printed and reported before, builds the same tree with
  the same names. (The claim as stated has the same input numbered identically by any two
  parses; a second parse in the same process starts from where the first left the
  counter.)
\<close>

theorem temporaries_numbered_in_recognition_order:
  assumes "Expression E w = Ret p w'" and "err w' = err w"
  shows "fst (NewTemp (world0 ts)) = 0 \<and>
    fst (NewTemp u) = tmpNo u \<and> tmpNo (snd (NewTemp u)) = tmpNo u + 1 \<and>
    tmpNo (final (Expression E u)) =
      tmpNo u + of_nat (operators (consumed u (final (Expression E u)))) \<and>
    (\<exists>t. p = Some t \<and> toks w = consumed w w' @ toks w' \<and>
       tmpNo w' = tmpNo w + of_nat (operators (consumed w w')) \<and>
       map snd (operator_nodes t) =
         map (temp_value E) (temps (tmpNo w) (operators (consumed w w'))) \<and>
       (sint (tmpNo w) + int (operators (consumed w w')) \<le> 2 ^ 31 \<longrightarrow>
          sorted_wrt (<) (map sint (temps (tmpNo w) (operators (consumed w w')))) \<and>
          distinct (temps (tmpNo w) (operators (consumed w w'))))) \<and>
    (toks v = toks w \<and> tmpNo v = tmpNo w \<longrightarrow>
       (\<exists>v'. Expression E v = Ret p v' \<and> toks v' = toks w' \<and> tmpNo v' = tmpNo w'))"
proof -
  have same: "\<exists>v'. Expression E v = Ret p v' \<and> toks v' = toks w' \<and> tmpNo v' = tmpNo w'"
    if "toks v = toks w \<and> tmpNo v = tmpNo w"
  proof -
    from that have "Expression E v = map_world (reframe (out v) (err v) w) (Expression E w)"
      by (intro Expression_same_input) simp_all
    with assms(1) have "Expression E v = Ret p (reframe (out v) (err v) w w')" by simp
    then show ?thesis by (auto simp: reframe_def)
  qed
  have new: "fst (NewTemp (world0 ts)) = 0 \<and> fst (NewTemp u) = tmpNo u \<and>
    tmpNo (snd (NewTemp u)) = tmpNo u + 1"
    by (simp add: NewTemp_def world0_def)
  have "advances u (final (Expression E u))" by (rule parse_advances)
  then obtain cs where cs: "toks u = cs @ toks (final (Expression E u))"
    "tmpNo (final (Expression E u)) = tmpNo u + of_nat (operators cs)"
    unfolding advances_iff by blast
  from consumed_eq [OF cs(1)] cs(2)
  have run: "tmpNo (final (Expression E u)) =
    tmpNo u + of_nat (operators (consumed u (final (Expression E u))))" by simp
  from Expression_parses [OF assms] obtain t where
    t: "p = Some t" "parses E (tmpNo w) (consumed w w') t"
      "tmpNo w' = tmpNo w + of_nat (operators (consumed w w'))"
      "toks w = consumed w w' @ toks w'" by blast
  note names = parses_operator_nodes(2) [OF t(2)]
  from new run t(1,3,4) names temps_increasing temps_distinct same show ?thesis by blast
qed

theorem temporaries_numbered_in_recognition_order_witness:
  "Expression env0 (world0 [num ''1'' 1, plus, num ''2'' 2, slash, num ''3'' 3]) =
     Ret (Some (binop TK_ADD ''t0'' (leaf ''1'' 1)
                 (binop TK_DIV ''t1'' (leaf ''2'' 2) (leaf ''3'' 3))))
       \<lparr>toks = [], tmpNo = 2, out = [], err = []\<rparr> \<and>
   map snd (operator_nodes (binop TK_ADD ''t0'' (leaf ''1'' 1)
     (binop TK_DIV ''t1'' (leaf ''2'' 2) (leaf ''3'' 3)))) =
     map (temp_value env0) [0, 1] \<and>
   sorted_wrt (<) (map sint [0, 1 :: cint]) \<and> distinct [0, 1 :: cint]"
proof -
  let ?w = "world0 [num ''1'' 1, plus, num ''2'' 2, slash, num ''3'' 3]"
  let ?w' = "\<lparr>toks = [], tmpNo = 2 :: cint, out = [], err = []\<rparr>"
  have p: "Expression env0 ?w =
     Ret (Some (binop TK_ADD ''t0'' (leaf ''1'' 1)
                 (binop TK_DIV ''t1'' (leaf ''2'' 2) (leaf ''3'' 3)))) ?w'"
    by (simp add: run_defs example_defs parse_simps decimal.simps)
  have e: "err ?w' = err ?w" by (simp add: world0_def)
  have n: "operators (consumed ?w ?w') = 2" "tmpNo ?w = 0"
    by (simp_all add: run_defs example_defs)
  have t: "temps (0 :: cint) 2 = [0, 1]"
    by (simp add: temps_def upt_conv_Cons)
  from temporaries_numbered_in_recognition_order [OF p e] p
  show ?thesis unfolding n t by simp
qed

text \<open>
  The tokens of \<^verbatim>\<open>1 + 2\<close> parsed twice in one process: the first parse names the
  addition \<open>t0\<close> and leaves the counter at 1, so the second names it \<open>t1\<close>. And a
  parse of \<^verbatim>\<open>1 + 2 + 3\<close> that begins when the counter has reached the largest
  \<^verbatim>\<open>int\<close>: the second temporary's number is the smallest \<^verbatim>\<open>int\<close>, not a greater one.
\<close>

theorem second_parse_numbers_from_one:
  "Expression env0 (world0 [num ''1'' 1, plus, num ''2'' 2]) =
     Ret (Some (binop TK_ADD ''t0'' (leaf ''1'' 1) (leaf ''2'' 2)))
       \<lparr>toks = [], tmpNo = 1, out = [], err = []\<rparr> \<and>
   Expression env0 \<lparr>toks = [num ''1'' 1, plus, num ''2'' 2], tmpNo = 1, out = [], err = []\<rparr> =
     Ret (Some (binop TK_ADD ''t1'' (leaf ''1'' 1) (leaf ''2'' 2)))
       \<lparr>toks = [], tmpNo = 2, out = [], err = []\<rparr> \<and>
   Expression env0
     \<lparr>toks = [num ''1'' 1, plus, num ''2'' 2, plus, num ''3'' 3], tmpNo = 2147483647,
      out = [], err = []\<rparr> =
     Ret (Some (binop TK_ADD ''t-2147483648''
                 (binop TK_ADD ''t2147483647'' (leaf ''1'' 1) (leaf ''2'' 2)) (leaf ''3'' 3)))
       \<lparr>toks = [], tmpNo = 2147483649, out = [], err = []\<rparr>"
  by (simp add: run_defs example_defs parse_simps decimal.simps)

subsection \<open>Shape of a parsed tree\<close>

text \<open>
  Claim C6. After a parse that reports no error the result is a tree, and every node of it
  is either a \<open>TK_NUM\<close> node with two null children whose value is the value of a
  \<open>TK_NUM\<close> token that was consumed, or an operator node with two children that are not
  null. No other node occurs.
\<close>

theorem parsed_tree_shape:
  assumes "Expression E w = Ret p w'" and "err w' = err w"
  shows "\<exists>t. p = Some t \<and> toks w = consumed w w' @ toks w' \<and>
    (\<forall>n \<in> set (subnodes t).
       (op n = TK_NUM \<and> kid0 n = None \<and> kid1 n = None \<and>
        (\<exists>k \<in> set (consumed w w'). kind k = TK_NUM \<and> val k = nval n)) \<or>
       (isArithmeticOperator (op n) \<and> kid0 n \<noteq> None \<and> kid1 n \<noteq> None))"
proof -
  from Expression_parses [OF assms] obtain t where
    t: "p = Some t" "parses E (tmpNo w) (consumed w w') t"
    and c: "toks w = consumed w w' @ toks w'" by blast
  then have wf: "wellformed t" and io: "inorder t = label E (tmpNo w) (consumed w w')"
    by (simp_all add: parses_def)
  have "(op n = TK_NUM \<and> kid0 n = None \<and> kid1 n = None \<and>
        (\<exists>k \<in> set (consumed w w'). kind k = TK_NUM \<and> val k = nval n)) \<or>
       (isArithmeticOperator (op n) \<and> kid0 n \<noteq> None \<and> kid1 n \<noteq> None)"
    if n: "n \<in> set (subnodes t)" for n
  proof (cases "op n = TK_NUM")
    case True
    from subnodes_inorder [OF n] True io
    have "(TK_NUM, nval n) \<in> set (label E (tmpNo w) (consumed w w'))" by simp
    from label_literal [OF this] wellformed_subnodes [OF wf n] True show ?thesis by auto
  next
    case False
    with wellformed_subnodes [OF wf n] show ?thesis by simp
  qed
  with t(1) c show ?thesis by blast
qed

theorem parsed_tree_shape_witness:
  "Expression env0 (world0 [num ''1'' 1, plus, num ''2'' 2]) =
     Ret (Some (binop TK_ADD ''t0'' (leaf ''1'' 1) (leaf ''2'' 2)))
       \<lparr>toks = [], tmpNo = 1, out = [], err = []\<rparr> \<and>
   (\<exists>t. Some (binop TK_ADD ''t0'' (leaf ''1'' 1) (leaf ''2'' 2)) = Some t \<and>
      list_all (\<lambda>n.
         (op n = TK_NUM \<and> kid0 n = None \<and> kid1 n = None \<and>
          list_ex (\<lambda>k. kind k = TK_NUM \<and> val k = nval n) [num ''1'' 1, plus, num ''2'' 2]) \<or>
         (isArithmeticOperator (op n) \<and> kid0 n \<noteq> None \<and> kid1 n \<noteq> None))
        (subnodes t))"
proof -
  let ?w = "world0 [num ''1'' 1, plus, num ''2'' 2]"
  let ?w' = "\<lparr>toks = [], tmpNo = 1 :: cint, out = [], err = []\<rparr>"
  have p: "Expression env0 ?w =
     Ret (Some (binop TK_ADD ''t0'' (leaf ''1'' 1) (leaf ''2'' 2))) ?w'"
    by (simp add: run_defs example_defs parse_simps decimal.simps)
  have e: "err ?w' = err ?w" by (simp add: world0_def)
  have c: "consumed ?w ?w' = [num ''1'' 1, plus, num ''2'' 2]"
    by (simp add: consumed_def world0_def)
  from parsed_tree_shape [OF p e] p show ?thesis
    unfolding c list_all_iff list_ex_iff by simp
qed

subsection \<open>Errors\<close>

text \<open>
  Claim C7, as amended. A node whose \<^verbatim>\<open>op\<close> is neither \<open>TK_NUM\<close> nor one of the four
  operators is reported by a call of \<^verbatim>\<open>Error\<close> with the message
  \<^verbatim>\<open>Unknown operator/operand\<close>, and nothing is printed for it. The statement after the
  call, \<^verbatim>\<open>return 0\<close>, is reached exactly when \<^verbatim>\<open>Error\<close> returns to its caller: then the
  evaluation of the node returns zero. An \<^verbatim>\<open>Error\<close> that terminates the process ends the
  evaluation at the report, and no value is returned. (The claim as stated promises the zero
  without condition: it fails for the \<^verbatim>\<open>Error\<close> that the specification describes.)
\<close>

theorem unknown_operator_is_reported_and_yields_zero:
  assumes "op root \<noteq> TK_NUM" and "\<not> isArithmeticOperator (op root)"
  shows "EvalExpression E (Some root) w =
    (if Error_returns E
     then Ret 0 (w\<lparr>err := err w @ [Message ''Unknown operator/operand'']\<rparr>)
     else Halt Exit (w\<lparr>err := err w @ [Message ''Unknown operator/operand'']\<rparr>))"
  using assms by (simp add: EvalExpression.simps Error_def fatal_def)

theorem unknown_operator_is_reported_and_yields_zero_witness:
  "EvalExpression env1 (Some (Node TK_LPAREN \<lparr>name = ''('', numVal = 5\<rparr> None None))
     (world0 []) =
   Ret 0 \<lparr>toks = [], tmpNo = 0, out = [], err = [Message ''Unknown operator/operand'']\<rparr> \<and>
   EvalExpression env0 (Some (Node TK_LPAREN \<lparr>name = ''('', numVal = 5\<rparr> None None))
     (world0 []) =
   Halt Exit \<lparr>toks = [], tmpNo = 0, out = [], err = [Message ''Unknown operator/operand'']\<rparr>"
  using unknown_operator_is_reported_and_yields_zero
    [of "Node TK_LPAREN \<lparr>name = ''('', numVal = 5\<rparr> None None" env1 "world0 []"]
    unknown_operator_is_reported_and_yields_zero
    [of "Node TK_LPAREN \<lparr>name = ''('', numVal = 5\<rparr> None None" env0 "world0 []"]
  by (simp add: env0_def env1_def world0_def)

text \<open>
  With the \<^verbatim>\<open>Error\<close> that terminates the process, a node of kind \<open>TK_LPAREN\<close> ends the
  evaluation at the report and returns no zero; below an addition, the addition is never
  computed and its caller receives no number.
\<close>

theorem fatal_Error_returns_no_value:
  "EvalExpression env0 (Some (Node TK_LPAREN \<lparr>name = ''('', numVal = 5\<rparr> None None))
     (world0 []) =
   Halt Exit \<lparr>toks = [], tmpNo = 0, out = [], err = [Message ''Unknown operator/operand'']\<rparr> \<and>
   EvalExpression env0 (Some (Node TK_LPAREN \<lparr>name = ''('', numVal = 5\<rparr> None None))
     (world0 []) \<noteq>
   Ret 0 \<lparr>toks = [], tmpNo = 0, out = [], err = [Message ''Unknown operator/operand'']\<rparr> \<and>
   EvalExpression env0
     (Some (binop TK_ADD ''t0'' (leaf ''1'' 1)
        (Node TK_LPAREN \<lparr>name = ''('', numVal = 5\<rparr> None None)))
     (world0 []) =
   Halt Exit \<lparr>toks = [], tmpNo = 0, out = [], err = [Message ''Unknown operator/operand'']\<rparr>"
  by (simp add: run_defs example_defs EvalExpression.simps)

text \<open>
  Claim C8. With an error-reporting function that terminates the process, a syntax error
  ends the parse: \<open>PrimaryExpression\<close> on a token that is neither a number nor a left
  parenthesis reports \<^verbatim>\<open>number or '(' expected\<close> and does not return; whenever
  \<open>Expression\<close> returns, nothing has been reported and the result is a whole tree; whenever
  it does not return, the process has exited; the parser prints nothing. The tokens of
  \<^verbatim>\<open>(1 + 2\<close> end in the report of \<^verbatim>\<open>Expect\<close> for the missing right parenthesis, and the
  tokens of \<^verbatim>\<open>1 +\<close> in the report of \<open>PrimaryExpression\<close>; in both runs nothing is
  printed.
\<close>

theorem syntax_errors_are_fatal:
  assumes "\<not> Error_returns E"
  shows "(kind (curToken w) \<noteq> TK_NUM \<and> kind (curToken w) \<noteq> TK_LPAREN \<longrightarrow>
            PrimaryExpression E w =
              Halt Exit (w\<lparr>err := err w @ [Message ''number or '(' expected'']\<rparr>)) \<and>
         (\<forall>p w'. Expression E w = Ret p w' \<longrightarrow>
            err w' = err w \<and> (\<exists>t. p = Some t \<and> wellformed t)) \<and>
         (\<forall>h w'. Expression E w = Halt h w' \<longrightarrow> h = Exit) \<and>
         out (final (Expression E w)) = out w \<and>
         compile E (world0 [tok TK_LPAREN x, num a 1, tok TK_ADD u, num b 2]) =
           Halt Exit \<lparr>toks = [], tmpNo = 1, out = [], err = [Expected TK_RPAREN]\<rparr> \<and>
         compile E (world0 [num a 1, tok TK_ADD u]) =
           Halt Exit \<lparr>toks = [], tmpNo = 1, out = [],
             err = [Message ''number or '(' expected'']\<rparr>"
proof -
  have 1: "kind (curToken w) \<noteq> TK_NUM \<and> kind (curToken w) \<noteq> TK_LPAREN \<longrightarrow>
    PrimaryExpression E w =
      Halt Exit (w\<lparr>err := err w @ [Message ''number or '(' expected'']\<rparr>)"
    using assms by (simp add: PrimaryExpression.simps Error_def fatal_def)
  have 2: "err w' = err w \<and> (\<exists>t. p = Some t \<and> wellformed t)"
    if r: "Expression E w = Ret p w'" for p w'
  proof -
    from parse_Ret_silent(6) [OF assms r] have e: "err w' = err w" .
    from Expression_parses [OF r e] e show ?thesis by (auto simp: parses_def)
  qed
  have 3: "h = Exit" if "Expression E w = Halt h w'" for h w'
    using parse_Halt_Exit(6) [OF that] by simp
  have "advances w (final (Expression E w))" by (rule parse_advances)
  then have 4: "out (final (Expression E w)) = out w" by (simp add: advances_iff)
  have 5: "compile E (world0 [tok TK_LPAREN x, num a 1, tok TK_ADD u, num b 2]) =
      Halt Exit \<lparr>toks = [], tmpNo = 1, out = [], err = [Expected TK_RPAREN]\<rparr>"
    using assms by (simp add: run_defs parse_simps)
  have 6: "compile E (world0 [num a 1, tok TK_ADD u]) =
      Halt Exit \<lparr>toks = [], tmpNo = 1, out = [],
        err = [Message ''number or '(' expected'']\<rparr>"
    using assms by (simp add: run_defs parse_simps)
  from 1 2 3 4 5 6 show ?thesis by blast
qed

theorem syntax_errors_are_fatal_witness:
  "PrimaryExpression env0 (world0 [rparen]) =
     Halt Exit \<lparr>toks = [rparen], tmpNo = 0, out = [],
       err = [Message ''number or '(' expected'']\<rparr> \<and>
   compile env0 (world0 [lparen, num ''1'' 1, plus, num ''2'' 2]) =
     Halt Exit \<lparr>toks = [], tmpNo = 1, out = [], err = [Expected TK_RPAREN]\<rparr>"
proof -
  have e: "\<not> Error_returns env0" by (simp add: env0_def)
  have k: "kind (curToken (world0 [rparen])) \<noteq> TK_NUM \<and>
    kind (curToken (world0 [rparen])) \<noteq> TK_LPAREN"
    by (simp add: world0_def curToken_def rparen_def tok_def)
  from syntax_errors_are_fatal [OF e, of "world0 [rparen]" "\<lparr>name = ''('', numVal = 0\<rparr>"
      "''1''" "\<lparr>name = ''+'', numVal = 0\<rparr>" "''2''"] k
  show ?thesis by (simp add: world0_def lparen_def plus_def)
qed

subsection \<open>Division\<close>

text \<open>
  Claim C9, as amended. At a \<open>TK_DIV\<close> node both operands are evaluated, left before
  right, and then divided, with no check in between. When the divisor is not zero and the
  division is not \<^verbatim>\<open>LONG_MIN / -1\<close>, the node returns the quotient truncated towards zero
  (as a number: the signed value of the result is \<open>sint a sdiv sint b\<close>) and prints its
  instruction. When the divisor is zero, or the quotient is no \<^verbatim>\<open>long\<close>, the division has
  no defined result: nothing is reported and nothing is printed for the node. (The claim
  as stated promises the truncated quotient for every nonzero divisor; \<^verbatim>\<open>LONG_MIN / -1\<close>
  has none.)
\<close>

theorem division_truncates_without_guard:
  assumes "op root = TK_DIV" and "kid0 root = Some l" and "kid1 root = Some r"
    and "EvalExpression E (Some l) w = Ret a w1"
    and "EvalExpression E (Some r) w1 = Ret b w2"
  shows "EvalExpression E (Some root) w =
      (if b = 0 \<or> (a = LONG_MIN \<and> b = - 1) then Halt Fault w2
       else Ret (word_of_int (sint a sdiv sint b))
              (EmitIR (instr (name (nval root)) (name (nval l)) ''/'' (name (nval r))) w2)) \<and>
    (b \<noteq> 0 \<and> \<not> (a = LONG_MIN \<and> b = - 1) \<longrightarrow>
       sint (word_of_int (sint a sdiv sint b) :: long) = sint a sdiv sint b)"
proof -
  have "long_div a b = Some (word_of_int (sint a sdiv sint b))"
    if "b \<noteq> 0 \<and> \<not> (a = LONG_MIN \<and> b = - 1)"
    using that by (simp add: long_div_def)
  then have exact: "b \<noteq> 0 \<and> \<not> (a = LONG_MIN \<and> b = - 1) \<longrightarrow>
    sint (word_of_int (sint a sdiv sint b) :: long) = sint a sdiv sint b"
    using long_div_exact by blast
  from assms have "EvalExpression E (Some root) w =
      (if b = 0 \<or> (a = LONG_MIN \<and> b = - 1) then Halt Fault w2
       else Ret (word_of_int (sint a sdiv sint b))
              (EmitIR (instr (name (nval root)) (name (nval l)) ''/'' (name (nval r))) w2))"
    by (simp add: EvalExpression.simps(2) [of E root w] long_div_def)
  with exact show ?thesis by blast
qed

theorem division_truncates_without_guard_witness:
  "EvalExpression env0 (Some (binop TK_DIV ''t0'' (leaf ''7'' 7) (binop TK_SUB ''t1'' (leaf ''0'' 0) (leaf ''2'' 2))))
     (world0 []) =
   Ret (- 3) \<lparr>toks = [], tmpNo = 0,
     out = [''t1 = 0 - 2'' @ [CHR 0x0A], ''t0 = 7 / t1'' @ [CHR 0x0A]], err = []\<rparr> \<and>
   sint (word_of_int (sint (7 :: long) sdiv sint (- 2 :: long)) :: long) = - 3"
proof -
  let ?r = "binop TK_SUB ''t1'' (leaf ''0'' 0) (leaf ''2'' 2)"
  let ?root = "binop TK_DIV ''t0'' (leaf ''7'' 7) ?r"
  let ?w2 = "\<lparr>toks = [], tmpNo = 0 :: cint, out = [''t1 = 0 - 2'' @ [CHR 0x0A]], err = []\<rparr>"
  have 1: "op ?root = TK_DIV" "kid0 ?root = Some (leaf ''7'' 7)" "kid1 ?root = Some ?r"
    by (simp_all add: binop_def)
  have 2: "EvalExpression env0 (Some (leaf ''7'' 7)) (world0 []) = Ret 7 (world0 [])"
    by (simp add: EvalExpression.simps leaf_def)
  have 3: "EvalExpression env0 (Some ?r) (world0 []) = Ret (- 2) ?w2"
    by (simp add: EvalExpression.simps run_defs example_defs)
  have q: "sint (7 :: long) sdiv sint (- 2 :: long) = - 3"
    by (simp add: signed_divide_int_def)
  from division_truncates_without_guard [OF 1 2 3] show ?thesis
    unfolding q by (simp add: LONG_MIN_def run_defs example_defs)
qed

text \<open>
  The tokens of \<^verbatim>\<open>(0 - 9223372036854775807 - 1) / (0 - 1)\<close>: the left operand
  evaluates to \<^verbatim>\<open>LONG_MIN\<close> and the right one to -1, which is not zero; the truncated
  quotient would be \<open>2 ^ 63\<close>, which no \<^verbatim>\<open>long\<close> holds, and the run stops at the
  division after the three subtractions have been printed.
\<close>

theorem LONG_MIN_by_minus_one_has_no_quotient:
  "compile env0
     (world0 [lparen, num ''0'' 0, minus, num ''9223372036854775807'' 9223372036854775807,
        minus, num ''1'' 1, rparen, slash, lparen, num ''0'' 0, minus, num ''1'' 1, rparen]) =
   Halt Fault \<lparr>toks = [], tmpNo = 4,
     out = [''t0 = 0 - 9223372036854775807'' @ [CHR 0x0A], ''t1 = t0 - 1'' @ [CHR 0x0A],
            ''t3 = 0 - 1'' @ [CHR 0x0A]],
     err = []\<rparr> \<and>
   (0 - 9223372036854775807 - 1 :: long) = LONG_MIN \<and> (0 - 1 :: long) \<noteq> 0 \<and>
   sint (0 - 9223372036854775807 - 1 :: long) sdiv sint (0 - 1 :: long) = 9223372036854775808"
  by (simp add: run_defs example_defs parse_simps decimal.simps
      EvalExpression.simps signed_divide_int_def)

subsection \<open>The interpreter does not write to the tree\<close>

text \<open>
  Claim C10. Let the store hold a tree at an address. Then \<^verbatim>\<open>EvalExpression\<close>, called with
  that address, returns; its result and what it prints and reports are those of the
  interpreter on the tree; and the store it leaves is the store it was given: no field of
  any node has changed.
\<close>

theorem EvalExpression_only_reads_the_tree:
  assumes "holds s a t"
  shows "EvalExpression_store E (Some a) (s, w) = Some (EvalExpression E (Some t) w, s)"
  using assms by (rule EvalExpression_store_holds)

theorem EvalExpression_only_reads_the_tree_witness:
  "holds store0 10 (binop TK_ADD ''t0'' (leaf ''3'' 3) (leaf ''4'' 4)) \<and>
   EvalExpression_store env0 (Some 10) (store0, world0 []) =
     Some (Ret 7 \<lparr>toks = [], tmpNo = 0, out = [''t0 = 3 + 4'' @ [CHR 0x0A]], err = []\<rparr>,
           store0)"
proof -
  have h: "holds store0 10 (binop TK_ADD ''t0'' (leaf ''3'' 3) (leaf ''4'' 4))"
    by (simp add: store0_def binop_def leaf_def)
  have e: "EvalExpression env0 (Some (binop TK_ADD ''t0'' (leaf ''3'' 3) (leaf ''4'' 4)))
      (world0 []) =
    Ret 7 \<lparr>toks = [], tmpNo = 0, out = [''t0 = 3 + 4'' @ [CHR 0x0A]], err = []\<rparr>"
    by (simp add: EvalExpression.simps run_defs example_defs)
  from EvalExpression_only_reads_the_tree [OF h, of env0 "world0 []"] h e
  show ?thesis by simp
qed

end
